theory Spec2Isabelle
  imports Main
begin

section \<open>LeadTube: the scraper core of \<^verbatim>\<open>leadscraper/scraper.py\<close>\<close>

text \<open>
  The scraper talks to three collaborators: the remote search API (through
  \<^verbatim>\<open>YouTubeClientManager\<close>), a spreadsheet and a checkpoint file. The model makes every
  effect explicit. Mutable objects (the manager's key cursor, the worksheet, the dedup set, the
  checkpoint dictionary, the checkpoint file) are fields of one \<open>state\<close> record that every
  function takes and returns. What the code emits (log lines, sleeps, clients built for a key) is
  appended to a trace. Exceptions are values: a function that can raise returns \<open>exn + 'a\<close>
  together with the state reached when it returned or raised.
\<close>

subsection \<open>Exceptions and observable events\<close>

datatype exn =
    HttpError "nat option"  \<comment> \<open>\<^verbatim>\<open>googleapiclient.errors.HttpError\<close>, with \<^verbatim>\<open>getattr(he.resp, "status", None)\<close>\<close>
  | OtherError string       \<comment> \<open>any other \<^verbatim>\<open>Exception\<close> a wrapped call raises, by its message\<close>
  | GenericException        \<comment> \<open>\<^verbatim>\<open>Exception("API request failed after multiple retries ...")\<close>\<close>
  | IndexError
  | KeyError
  | TypeError
  | ValueError
  | FileNotFoundError
  | JSONDecodeError
  | PermissionError
  | UnicodeDecodeError
  | GSpreadException

fun is_HttpError :: "exn \<Rightarrow> bool" where
  "is_HttpError (HttpError st) = True"
| "is_HttpError e = False"

text \<open>\<^verbatim>\<open>status in (403, 429)\<close> for an \<^verbatim>\<open>HttpError\<close>.\<close>

fun quota_class :: "exn \<Rightarrow> bool" where
  "quota_class (HttpError st) = (st = Some 403 \<or> st = Some 429)"
| "quota_class e = False"

datatype log_line =
    WarnRotate exn              \<comment> \<open>\<^verbatim>\<open>[WARN] HTTP Error {status}. Rotating API key.\<close>\<close>
  | WarnRetry exn               \<comment> \<open>\<^verbatim>\<open>[WARN] An unexpected error occurred: {e}. Retrying...\<close>\<close>
  | WarnCheckpoint exn          \<comment> \<open>\<^verbatim>\<open>[WARN] Checkpoint file is corrupted or unreadable. ...\<close>\<close>
  | ErrSheets exn               \<comment> \<open>\<^verbatim>\<open>[ERROR] Failed to connect to Google Sheets. ...\<close>\<close>
  | ErrServiceAccount           \<comment> \<open>\<^verbatim>\<open>[ERROR] Service account file not found at: ...\<close>\<close>
  | WorksheetCreated            \<comment> \<open>\<^verbatim>\<open>Worksheet '...' not found. Creating it.\<close>\<close>
  | HeaderRepaired              \<comment> \<open>\<^verbatim>\<open>Header is missing or incorrect. ...\<close>\<close>
  | StoppingKeyword             \<comment> \<open>\<^verbatim>\<open>Stopping keyword processing.\<close>\<close>
  | NoMoreResults string        \<comment> \<open>\<^verbatim>\<open>No more search results for '{keyword}'.\<close>\<close>
  | Added string int string     \<comment> \<open>\<^verbatim>\<open>Added: {title} ({subs} subs) | Keyword: {keyword}\<close>\<close>
  | ReachedEnd string           \<comment> \<open>\<^verbatim>\<open>Reached the end of results for '{keyword}'.\<close>\<close>
  | ScraperStarting             \<comment> \<open>\<^verbatim>\<open>Scraper starting...\<close>\<close>
  | LoadingExisting             \<comment> \<open>\<^verbatim>\<open>Loading existing channels from Google Sheet...\<close>\<close>
  | FoundExisting nat           \<comment> \<open>\<^verbatim>\<open>Found {len(existing_channels)} existing channels.\<close>\<close>
  | ScrapingStopped             \<comment> \<open>\<^verbatim>\<open>Scraping stopped by user.\<close>\<close>
  | Skipping string             \<comment> \<open>\<^verbatim>\<open>Skipping keyword '{kw}' as it's already fully processed.\<close>\<close>
  | Processing string           \<comment> \<open>\<^verbatim>\<open>=== Processing Keyword: {kw} ===\<close>\<close>
  | AddedForKeyword "int option" string
                                \<comment> \<open>\<^verbatim>\<open>--- Added {count} new channels for '{kw}' ---\<close>\<close>
  | Done int                    \<comment> \<open>\<^verbatim>\<open>DONE! Total new channels added in this session: {total_added}\<close>\<close>

datatype event =
    Log log_line   \<comment> \<open>a call of \<^verbatim>\<open>log_callback\<close>\<close>
  | Sleep nat      \<comment> \<open>\<^verbatim>\<open>time.sleep\<close>, in milliseconds\<close>
  | Build string   \<comment> \<open>\<^verbatim>\<open>build("youtube", "v3", developerKey=key)\<close>\<close>

subsection \<open>The checkpoint dictionary and its file\<close>

text \<open>
  The checkpoint is a JSON object. Each of its three keys may be missing: the code reads with
  \<^verbatim>\<open>checkpoint.get("positions", {})\<close> and writes with \<^verbatim>\<open>setdefault\<close>. A field is \<open>None\<close> when
  the key is missing. A stored page token may be \<^verbatim>\<open>null\<close>.
\<close>

record checkpoint =
  positions :: "(string \<rightharpoonup> string option) option"
  keywords_done :: "(string \<rightharpoonup> int) option"
  processed_channels :: "string set option"

text \<open>The dictionary \<^verbatim>\<open>{}\<close>.\<close>

definition empty_dict :: checkpoint where
  "empty_dict = \<lparr>positions = None, keywords_done = None, processed_channels = None\<rparr>"

text \<open>
  What the checkpoint file is to its reader: it does not exist; or it exists and reading it
  (\<^verbatim>\<open>open\<close> followed by \<^verbatim>\<open>json.load\<close>) raises; or it decodes to a checkpoint dictionary.
\<close>

datatype checkpoint_file = Missing | Unreadable exn | Stored checkpoint

subsection \<open>The state\<close>

record state =
  current_key_index :: nat                 \<comment> \<open>\<^verbatim>\<open>YouTubeClientManager.current_key_index\<close>\<close>
  ticks :: nat                             \<comment> \<open>how many times the remote API and the stop flag were consulted\<close>
  trace :: "event list"                    \<comment> \<open>everything emitted so far, oldest first\<close>
  sheet :: "string list list"              \<comment> \<open>the worksheet's rows\<close>
  existing_channels :: "string set"        \<comment> \<open>the dedup set\<close>
  checkpoint :: checkpoint                 \<comment> \<open>the in-memory checkpoint dictionary\<close>
  disk :: checkpoint_file                  \<comment> \<open>the checkpoint file\<close>

definition emit :: "event \<Rightarrow> state \<Rightarrow> state" where
  "emit e s = s\<lparr>trace := trace s @ [e]\<rparr>"

definition log_callback :: "log_line \<Rightarrow> state \<Rightarrow> state" where
  "log_callback l s = emit (Log l) s"

definition sleep :: "nat \<Rightarrow> state \<Rightarrow> state" where
  "sleep ms s = emit (Sleep ms) s"

definition tick :: "state \<Rightarrow> state" where
  "tick s = s\<lparr>ticks := Suc (ticks s)\<rparr>"

subsection \<open>\<^verbatim>\<open>YouTubeClientManager\<close>\<close>

text \<open>
  \<^verbatim>\<open>__init__\<close> refuses an empty key list and starts the cursor at 0.
\<close>

definition manager_init :: "string list \<Rightarrow> state \<Rightarrow> exn + state" where
  "manager_init api_keys s =
     (if api_keys = [] then Inl ValueError else Inr (s\<lparr>current_key_index := 0\<rparr>))"

text \<open>
  \<^verbatim>\<open>get_client\<close>: read the key under the cursor, advance the cursor modulo the pool size, build
  a client for the key. The client is modelled by its key. Indexing outside the list raises.
\<close>

definition get_client :: "string list \<Rightarrow> state \<Rightarrow> (exn + string) \<times> state" where
  "get_client api_keys s =
     (if current_key_index s < length api_keys then
        (let key = api_keys ! current_key_index s;
             s1 = s\<lparr>current_key_index := (current_key_index s + 1) mod length api_keys\<rparr>
         in (Inr key, emit (Build key) s1))
      else (Inl IndexError, s))"

text \<open>\<open>n\<close> consecutive grants, stopping at the first that raises.\<close>

fun grants :: "nat \<Rightarrow> string list \<Rightarrow> state \<Rightarrow> (exn + string list) \<times> state" where
  "grants 0 api_keys s = (Inr [], s)"
| "grants (Suc n) api_keys s =
     (case get_client api_keys s of
        (Inl e, s1) \<Rightarrow> (Inl e, s1)
      | (Inr key, s1) \<Rightarrow>
          (case grants n api_keys s1 of
             (Inl e, s2) \<Rightarrow> (Inl e, s2)
           | (Inr ks, s2) \<Rightarrow> (Inr (key # ks), s2)))"

text \<open>
  \<^verbatim>\<open>api_request(func)\<close>. The wrapped call \<open>func\<close> is a callable of the client; what it returns
  or raises is decided outside the program, so it also depends on the moment it is made, the
  value of \<open>ticks\<close>. The loop \<^verbatim>\<open>for _ in range(len(self.api_keys))\<close> is the recursion on the
  number of iterations left; \<open>last_exc\<close> is the variable of that name.
\<close>

fun api_loop :: "string list \<Rightarrow> (nat \<Rightarrow> string \<Rightarrow> exn + 'a) \<Rightarrow> nat \<Rightarrow> exn option \<Rightarrow> state
    \<Rightarrow> (exn + 'a) \<times> state" where
  "api_loop api_keys func 0 last_exc s =
     (Inl (case last_exc of Some e \<Rightarrow> e | None \<Rightarrow> GenericException), s)"
| "api_loop api_keys func (Suc n) last_exc s =
     (case get_client api_keys s of
        (Inl e, s1) \<Rightarrow> (Inl e, s1)
      | (Inr yt, s1) \<Rightarrow>
          (case func (ticks s1) yt of
             Inr v \<Rightarrow> (Inr v, tick s1)
           | Inl e \<Rightarrow>
               if is_HttpError e then
                 (if quota_class e then
                    api_loop api_keys func n (Some e)
                      (sleep 200 (log_callback (WarnRotate e) (tick s1)))
                  else (Inl e, tick s1))
               else
                 api_loop api_keys func n (Some e)
                   (sleep 1500 (log_callback (WarnRetry e) (tick s1)))))"

definition api_request :: "string list \<Rightarrow> (nat \<Rightarrow> string \<Rightarrow> exn + 'a) \<Rightarrow> state
    \<Rightarrow> (exn + 'a) \<times> state" where
  "api_request api_keys func s = api_loop api_keys func (length api_keys) None s"

subsection \<open>\<^verbatim>\<open>extract_emails\<close>\<close>

text \<open>
  \<^verbatim>\<open>re.findall(r"[a-zA-Z0-9._%+-]+@[a-zA-Z0-9.-]+\.[a-zA-Z]{2,}", text or "")\<close>. The pattern is
  a sequence of atoms: a literal character, or a character class repeated \<open>m\<close> or more times.
  \<open>match_here\<close> is the backtracking matcher of \<^verbatim>\<open>re\<close> at one position and returns the length
  of the match: a repetition is greedy, it first takes every character of its class that
  follows and gives characters back one at a time until the rest of the pattern matches.
  \<open>findall\<close> scans from the left; after a match it goes on behind the match, otherwise one
  character further. This pattern never matches the empty string, so the rule of \<^verbatim>\<open>re\<close> for
  empty matches does not arise.
\<close>

definition ascii_lower :: string where "ascii_lower = ''abcdefghijklmnopqrstuvwxyz''"
definition ascii_upper :: string where "ascii_upper = ''ABCDEFGHIJKLMNOPQRSTUVWXYZ''"
definition ascii_digit :: string where "ascii_digit = ''0123456789''"

definition letter :: "char \<Rightarrow> bool" where
  "letter c = (c \<in> set (ascii_lower @ ascii_upper))"

definition local_class :: "char \<Rightarrow> bool" where
  "local_class c = (c \<in> set (ascii_lower @ ascii_upper @ ascii_digit @ ''._%+-''))"

definition domain_class :: "char \<Rightarrow> bool" where
  "domain_class c = (c \<in> set (ascii_lower @ ascii_upper @ ascii_digit @ ''.-''))"

datatype atom = Lit char | Rep nat "char \<Rightarrow> bool"

definition email_pattern :: "atom list" where
  "email_pattern =
     [Rep 1 local_class, Lit (CHR ''@''), Rep 1 domain_class, Lit (CHR ''.''), Rep 2 letter]"

fun first_some :: "(nat \<Rightarrow> nat option) \<Rightarrow> nat list \<Rightarrow> nat option" where
  "first_some f [] = None"
| "first_some f (j # js) = (case f j of Some r \<Rightarrow> Some r | None \<Rightarrow> first_some f js)"

fun match_here :: "atom list \<Rightarrow> string \<Rightarrow> nat option" where
  "match_here [] s = Some 0"
| "match_here (Lit c # p) s =
     (case s of [] \<Rightarrow> None
      | x # xs \<Rightarrow> if x = c then map_option Suc (match_here p xs) else None)"
| "match_here (Rep m cls # p) s =
     first_some (\<lambda>j. map_option ((+) j) (match_here p (drop j s)))
       (rev [m..<Suc (length (takeWhile cls s))])"

fun findall :: "atom list \<Rightarrow> string \<Rightarrow> string list" where
  "findall p [] = []"
| "findall p (c # cs) =
     (case match_here p (c # cs) of
        Some (Suc n) \<Rightarrow> take (Suc n) (c # cs) # findall p (drop n cs)
      | _ \<Rightarrow> findall p cs)"

text \<open>
  \<^verbatim>\<open>list(set(...))\<close> removes the duplicates. Python leaves the order of the result open; the
  model keeps the order of the last occurrences, and nothing below depends on the order.
\<close>

definition extract_emails :: "string option \<Rightarrow> string list" where
  "extract_emails text =
     remdups (findall email_pattern (case text of None \<Rightarrow> [] | Some t \<Rightarrow> t))"

subsection \<open>Configuration (\<^verbatim>\<open>config.py\<close>)\<close>

definition MAX_VALID_PER_KEYWORD :: int where
  "MAX_VALID_PER_KEYWORD = 100"

definition ALLOWED_COUNTRIES :: "string set" where
  "ALLOWED_COUNTRIES = set
     [''US'', ''CA'', ''GB'', ''AU'',
      ''DZ'', ''AO'', ''BJ'', ''BW'', ''BF'', ''BI'', ''CM'', ''CV'', ''CF'', ''TD'', ''KM'', ''CG'',
      ''CD'', ''DJ'', ''EG'', ''GQ'', ''ER'', ''SZ'', ''ET'', ''GA'', ''GM'', ''GH'', ''GN'', ''GW'',
      ''KE'', ''LS'', ''LR'', ''LY'', ''MG'', ''MW'', ''ML'', ''MR'', ''MU'', ''MA'', ''MZ'', ''NA'',
      ''NE'', ''NG'', ''RW'', ''ST'', ''SN'', ''SC'', ''SL'', ''SO'', ''ZA'', ''SS'', ''SD'', ''TZ'',
      ''TG'', ''TN'', ''UG'', ''ZM'', ''ZW'']"

subsection \<open>The collaborators\<close>

text \<open>
  A search hit: \<^verbatim>\<open>item.get("snippet")\<close> is missing (or empty), or it is a snippet whose
  \<^verbatim>\<open>channelId\<close> may be missing.
\<close>

datatype search_item = NoSnippet | Snippet "string option"

record search_result =
  items :: "search_item list"          \<comment> \<open>\<^verbatim>\<open>search_result.get("items", [])\<close>\<close>
  nextPageToken :: "string option"     \<comment> \<open>\<^verbatim>\<open>search_result.get("nextPageToken")\<close>\<close>

text \<open>
  \<^verbatim>\<open>int(stats.get("subscriberCount", 0))\<close>: the field is missing, or \<^verbatim>\<open>int\<close> reads a number
  from it, or \<^verbatim>\<open>int\<close> raises \<^verbatim>\<open>ValueError\<close>.
\<close>

datatype subscriber_field = NoCount | Count int | BadCount

record channel =
  channel_id :: "string option"        \<comment> \<open>\<^verbatim>\<open>channel.get("id")\<close>\<close>
  title :: "string option"             \<comment> \<open>\<^verbatim>\<open>snippet.get("title", "")\<close>\<close>
  description :: "string option"       \<comment> \<open>\<^verbatim>\<open>snippet.get("description", "")\<close>\<close>
  subscriberCount :: subscriber_field
  country :: "string option"           \<comment> \<open>\<^verbatim>\<open>branding.get("country")\<close>\<close>

text \<open>
  What lies outside the program. Every answer may depend on the moment of the request (the
  value of \<open>ticks\<close>), on the key of the client and on the arguments of the request.
  \<open>finish_time\<close> is the moment a worker of the thread pool completes; \<^verbatim>\<open>as_completed\<close> yields
  the futures in that order.
\<close>

record env =
  should_stop :: "nat \<Rightarrow> bool"
  search_list :: "nat \<Rightarrow> string \<Rightarrow> string \<Rightarrow> string option \<Rightarrow> exn + search_result"
  channels_list :: "nat \<Rightarrow> string \<Rightarrow> string list \<Rightarrow> exn + channel list"
  content_details :: "nat \<Rightarrow> string \<Rightarrow> string \<Rightarrow> exn + unit"
  finish_time :: "nat \<Rightarrow> string \<Rightarrow> nat"
  sheets_connect :: "exn option"
  worksheet_found :: bool

record params =
  "keywords" :: "string list"
  min_subs :: int
  max_subs :: int
  inactivity_days :: int

subsection \<open>The worksheet\<close>

definition header :: "string list" where
  "header = [''channelTitle'', ''emails'', ''channelUrl'', ''keyword'']"

text \<open>
  \<^verbatim>\<open>setup_worksheet\<close>. A failure to connect is logged when it is a \<^verbatim>\<open>GSpreadException\<close> or a
  \<^verbatim>\<open>FileNotFoundError\<close> and raised again in every case. A worksheet that is not found is
  created empty. A sheet whose first row is not the header is cleared and gets the header.
\<close>

definition setup_worksheet :: "env \<Rightarrow> state \<Rightarrow> (exn + unit) \<times> state" where
  "setup_worksheet env s =
     (case sheets_connect env of
        Some e \<Rightarrow>
          (Inl e,
           if e = GSpreadException then log_callback (ErrSheets e) s
           else if e = FileNotFoundError then log_callback ErrServiceAccount s
           else s)
      | None \<Rightarrow>
          (let s1 = (if worksheet_found env then s
                     else (log_callback WorksheetCreated s)\<lparr>sheet := []\<rparr>);
               s2 = (if sheet s1 = [] \<or> hd (sheet s1) \<noteq> header
                     then (log_callback HeaderRepaired s1)\<lparr>sheet := [header]\<rparr>
                     else s1)
           in (Inr (), s2)))"

definition append_rows :: "string list list \<Rightarrow> state \<Rightarrow> state" where
  "append_rows rows s = s\<lparr>sheet := sheet s @ rows\<rparr>"

subsection \<open>Checkpointing\<close>

text \<open>
  \<^verbatim>\<open>load_checkpoint\<close>: when the file exists it is read, and of the exceptions reading can raise
  only \<^verbatim>\<open>FileNotFoundError\<close> and \<^verbatim>\<open>json.JSONDecodeError\<close> are caught.
\<close>

definition load_checkpoint :: "state \<Rightarrow> (exn + checkpoint) \<times> state" where
  "load_checkpoint s =
     (case disk s of
        Missing \<Rightarrow> (Inr empty_dict, s)
      | Stored c \<Rightarrow> (Inr c, s)
      | Unreadable e \<Rightarrow>
          if e = FileNotFoundError \<or> e = JSONDecodeError
          then (Inr empty_dict, log_callback (WarnCheckpoint e) s)
          else (Inl e, s))"

definition save_checkpoint :: "checkpoint \<Rightarrow> state \<Rightarrow> state" where
  "save_checkpoint c s = s\<lparr>disk := Stored c\<rparr>"

text \<open>\<^verbatim>\<open>checkpoint.get("positions", {}).get(keyword)\<close>\<close>

definition get_position :: "checkpoint \<Rightarrow> string \<Rightarrow> string option" where
  "get_position c kw =
     (case positions c of None \<Rightarrow> None
      | Some m \<Rightarrow> (case m kw of None \<Rightarrow> None | Some tok \<Rightarrow> tok))"

text \<open>\<^verbatim>\<open>checkpoint.get("keywords_done", {}).get(keyword, 0)\<close>\<close>

definition get_done :: "checkpoint \<Rightarrow> string \<Rightarrow> int" where
  "get_done c kw =
     (case keywords_done c of None \<Rightarrow> 0
      | Some m \<Rightarrow> (case m kw of None \<Rightarrow> 0 | Some n \<Rightarrow> n))"

text \<open>
  \<^verbatim>\<open>checkpoint.setdefault("positions", {})[keyword] = next_page_token\<close> and
  \<^verbatim>\<open>checkpoint.setdefault("keywords_done", {})[keyword] = channels_added_for_kw\<close>
\<close>

definition set_progress :: "string \<Rightarrow> string option \<Rightarrow> int \<Rightarrow> checkpoint \<Rightarrow> checkpoint" where
  "set_progress kw tok added c =
     c\<lparr>positions := Some ((case positions c of None \<Rightarrow> Map.empty | Some m \<Rightarrow> m)(kw \<mapsto> tok)),
       keywords_done :=
         Some ((case keywords_done c of None \<Rightarrow> Map.empty | Some m \<Rightarrow> m)(kw \<mapsto> added))\<rparr>"

subsection \<open>\<^verbatim>\<open>is_country_allowed\<close>\<close>

text \<open>\<^verbatim>\<open>str.upper\<close> on ASCII letters; other characters stay.\<close>

definition to_upper :: "char \<Rightarrow> char" where
  "to_upper c = (if c \<in> set ascii_lower then char_of (of_char c - (32::nat)) else c)"

definition is_country_allowed :: "string option \<Rightarrow> bool" where
  "is_country_allowed c =
     (if ALLOWED_COUNTRIES = {} then True
      else (case c of None \<Rightarrow> False
            | Some code \<Rightarrow> code \<noteq> [] \<and> map to_upper code \<in> ALLOWED_COUNTRIES))"

subsection \<open>\<^verbatim>\<open>process_keyword\<close>\<close>

record candidate =
  cand_id :: string
  cand_title :: string
  cand_subs :: int
  cand_emails :: "string list"
  cand_url :: string

definition channel_url :: "string \<Rightarrow> string" where
  "channel_url cid = ''https://www.youtube.com/channel/'' @ cid"

text \<open>
  \<^verbatim>\<open>[item["snippet"]["channelId"] for item in ... if item.get("snippet")]\<close>; a snippet without
  \<^verbatim>\<open>channelId\<close> raises \<^verbatim>\<open>KeyError\<close>.
\<close>

fun channel_ids :: "search_item list \<Rightarrow> exn + string list" where
  "channel_ids [] = Inr []"
| "channel_ids (NoSnippet # its) = channel_ids its"
| "channel_ids (Snippet None # its) = Inl KeyError"
| "channel_ids (Snippet (Some c) # its) =
     (case channel_ids its of Inl e \<Rightarrow> Inl e | Inr cs \<Rightarrow> Inr (c # cs))"

text \<open>
  The filter loop over \<^verbatim>\<open>details_result.get("items", [])\<close>, with the checks in the order of
  the source. The dedup set does not change during this loop.
\<close>

fun filter_channels :: "params \<Rightarrow> string set \<Rightarrow> channel list \<Rightarrow> exn + candidate list" where
  "filter_channels p existing [] = Inr []"
| "filter_channels p existing (ch # chs) =
     (case channel_id ch of
        None \<Rightarrow> filter_channels p existing chs
      | Some cid \<Rightarrow>
          if cid = [] \<or> channel_url cid \<in> existing then filter_channels p existing chs
          else
            (case subscriberCount ch of
               BadCount \<Rightarrow> Inl ValueError
             | sc \<Rightarrow>
                 (let subs_count = (case sc of Count n \<Rightarrow> n | _ \<Rightarrow> 0);
                      emails = extract_emails (description ch)
                  in if \<not> (min_subs p \<le> subs_count \<and> subs_count \<le> max_subs p)
                     then filter_channels p existing chs
                     else if \<not> is_country_allowed (country ch)
                     then filter_channels p existing chs
                     else if emails = [] then filter_channels p existing chs
                     else
                       (case filter_channels p existing chs of
                          Inl e \<Rightarrow> Inl e
                        | Inr cands \<Rightarrow>
                            Inr (\<lparr>cand_id = cid,
                                  cand_title = (case title ch of None \<Rightarrow> [] | Some t \<Rightarrow> t),
                                  cand_subs = subs_count, cand_emails = emails,
                                  cand_url = channel_url cid\<rparr> # cands)))))"

text \<open>
  \<^verbatim>\<open>id_to_candidate = {c["id"]: c for c in candidate_channels}\<close>: for an id that occurs twice
  the later candidate stays, at the place of the first.
\<close>

definition id_to_candidate :: "candidate list \<Rightarrow> (string \<rightharpoonup> candidate)" where
  "id_to_candidate cands = map_of (rev (map (\<lambda>c. (cand_id c, c)) cands))"

definition dict_keys :: "candidate list \<Rightarrow> string list" where
  "dict_keys cands = rev (remdups (rev (map cand_id cands)))"

text \<open>
  The thread pool. Each submitted task makes one \<^verbatim>\<open>api_request\<close> for its channel and returns
  the id; the lock in \<^verbatim>\<open>get_client\<close> makes each grant atomic, and the model runs the tasks one
  after the other in the order of submission. A task's result is its id and the exception
  it raised, if any.
\<close>

fun run_workers :: "env \<Rightarrow> string list \<Rightarrow> string list \<Rightarrow> state
    \<Rightarrow> (string \<times> exn option) list \<times> state" where
  "run_workers env api_keys [] s = ([], s)"
| "run_workers env api_keys (cid # cids) s =
     (case api_request api_keys (\<lambda>t yt. content_details env t yt cid) s of
        (r, s1) \<Rightarrow>
          (case run_workers env api_keys cids s1 of
             (rs, s2) \<Rightarrow> ((cid, case r of Inl e \<Rightarrow> Some e | Inr u \<Rightarrow> None) # rs, s2)))"

fun join :: "string \<Rightarrow> string list \<Rightarrow> string" where
  "join sep [] = []"
| "join sep [x] = x"
| "join sep (x # y # ys) = x @ sep @ join sep (y # ys)"

definition make_row :: "candidate \<Rightarrow> string \<Rightarrow> string list" where
  "make_row c kw = [cand_title c, join '', '' (cand_emails c), cand_url c, kw]"

text \<open>
  The loop \<^verbatim>\<open>for future in as_completed(future_to_cid)\<close>. \<^verbatim>\<open>future.result()\<close> raises what the
  task raised.
\<close>

fun collect :: "env \<Rightarrow> string \<Rightarrow> (string \<rightharpoonup> candidate) \<Rightarrow> (string \<times> exn option) list
    \<Rightarrow> string list list \<Rightarrow> int \<Rightarrow> state \<Rightarrow> (exn + string list list \<times> int) \<times> state" where
  "collect env kw m [] rows added s = (Inr (rows, added), s)"
| "collect env kw m ((cid, r) # futs) rows added s =
     (if should_stop env (ticks s) then (Inr (rows, added), tick s)
      else
        (case r of
           Some e \<Rightarrow> (Inl e, tick s)
         | None \<Rightarrow>
             (case m cid of
                None \<Rightarrow> (Inl KeyError, tick s)
              | Some c \<Rightarrow>
                  (let rows' = rows @ [make_row c kw];
                       s1 = (tick s)\<lparr>existing_channels := insert (cand_url c) (existing_channels s)\<rparr>;
                       added' = added + 1;
                       s2 = log_callback (Added (cand_title c) (cand_subs c) kw) s1
                   in if added' \<ge> MAX_VALID_PER_KEYWORD then (Inr (rows', added'), s2)
                      else collect env kw m futs rows' added' s2))))"

definition append_stage :: "env \<Rightarrow> string list \<Rightarrow> string \<Rightarrow> candidate list \<Rightarrow> int \<Rightarrow> state
    \<Rightarrow> (exn + string list list \<times> int) \<times> state" where
  "append_stage env api_keys kw cands added s =
     (if cands = [] then (Inr ([], added), s)
      else
        (case run_workers env api_keys (dict_keys cands) s of
           (futs, s1) \<Rightarrow>
             collect env kw (id_to_candidate cands)
               (sort_key (\<lambda>f. finish_time env (ticks s) (fst f)) futs) [] added s1))"

text \<open>
  One iteration of the \<^verbatim>\<open>while\<close> loop, from the poll of the stop flag to the save of the
  checkpoint. It raises, or leaves the loop (\<^verbatim>\<open>break\<close>), or hands the new count and page
  token to the next iteration.
\<close>

datatype page_result = Raise exn | Break | Next int "string option"

definition process_page :: "env \<Rightarrow> string list \<Rightarrow> params \<Rightarrow> string \<Rightarrow> int \<Rightarrow> string option
    \<Rightarrow> state \<Rightarrow> page_result \<times> state" where
  "process_page env api_keys p kw added tok s =
     (if should_stop env (ticks s) then (Break, log_callback StoppingKeyword (tick s))
      else
        (case api_request api_keys (\<lambda>t yt. search_list env t yt kw tok) (tick s) of
           (Inl e, s1) \<Rightarrow> (Raise e, s1)
         | (Inr sr, s1) \<Rightarrow>
             (case channel_ids (items sr) of
                Inl e \<Rightarrow> (Raise e, s1)
              | Inr ids \<Rightarrow>
                  if ids = [] then (Break, log_callback (NoMoreResults kw) s1)
                  else
                    (case api_request api_keys (\<lambda>t yt. channels_list env t yt ids) s1 of
                       (Inl e, s2) \<Rightarrow> (Raise e, s2)
                     | (Inr details, s2) \<Rightarrow>
                         (case filter_channels p (existing_channels s2) details of
                            Inl e \<Rightarrow> (Raise e, s2)
                          | Inr cands \<Rightarrow>
                              (case append_stage env api_keys kw cands added s2 of
                                 (Inl e, s3) \<Rightarrow> (Raise e, s3)
                               | (Inr (rows, added'), s3) \<Rightarrow>
                                   (let s4 = (if rows \<noteq> [] then append_rows rows s3 else s3);
                                        tok' = nextPageToken sr;
                                        c' = set_progress kw tok' added' (checkpoint s4);
                                        s5 = save_checkpoint c' (s4\<lparr>checkpoint := c'\<rparr>)
                                    in if tok' = None \<or> tok' = Some []
                                       then (Break, log_callback (ReachedEnd kw) s5)
                                       else (Next added' tok', s5))))))))"

definition max_pages :: nat where
  "max_pages = 6"

function kw_loop :: "env \<Rightarrow> string list \<Rightarrow> params \<Rightarrow> string \<Rightarrow> nat \<Rightarrow> int \<Rightarrow> string option
    \<Rightarrow> state \<Rightarrow> exn option \<times> state" where
  "kw_loop env api_keys p kw pages_processed added tok s =
     (if pages_processed < max_pages \<and> added < MAX_VALID_PER_KEYWORD then
        (case process_page env api_keys p kw added tok s of
           (Raise e, s1) \<Rightarrow> (Some e, s1)
         | (Break, s1) \<Rightarrow> (None, s1)
         | (Next added' tok', s1) \<Rightarrow>
             kw_loop env api_keys p kw (Suc pages_processed) added' tok' (sleep 200 s1))
      else (None, s))"
  by pat_completeness auto
termination
  by (relation "measure (\<lambda>(env, api_keys, p, kw, pages_processed, added, tok, s).
        max_pages - pages_processed)") auto

text \<open>
  \<^verbatim>\<open>process_keyword\<close> has no \<^verbatim>\<open>return\<close> statement: when it does not raise, its value is
  \<^verbatim>\<open>None\<close>. The argument \<open>kw\<close> is \<^verbatim>\<open>params['keyword']\<close>.
\<close>

definition process_keyword :: "env \<Rightarrow> string list \<Rightarrow> params \<Rightarrow> string \<Rightarrow> state
    \<Rightarrow> (exn + int option) \<times> state" where
  "process_keyword env api_keys p kw s =
     (case kw_loop env api_keys p kw 0 (get_done (checkpoint s) kw)
             (get_position (checkpoint s) kw) s of
        (Some e, s1) \<Rightarrow> (Inl e, s1)
      | (None, s1) \<Rightarrow> (Inr None, s1))"

subsection \<open>\<^verbatim>\<open>run_scraper\<close>\<close>

text \<open>\<^verbatim>\<open>total_added += count\<close>: adding \<^verbatim>\<open>None\<close> to an \<^verbatim>\<open>int\<close> raises \<^verbatim>\<open>TypeError\<close>.\<close>

fun add_count :: "int \<Rightarrow> int option \<Rightarrow> exn + int" where
  "add_count total_added None = Inl TypeError"
| "add_count total_added (Some c) = Inr (total_added + c)"

text \<open>The loop \<^verbatim>\<open>for kw in params['keywords']\<close>; its value is \<^verbatim>\<open>total_added\<close>.\<close>

fun run_keywords :: "env \<Rightarrow> string list \<Rightarrow> params \<Rightarrow> string list \<Rightarrow> int \<Rightarrow> state
    \<Rightarrow> (exn + int) \<times> state" where
  "run_keywords env api_keys p [] total_added s = (Inr total_added, s)"
| "run_keywords env api_keys p (kw # kws) total_added s =
     (if should_stop env (ticks s) then (Inr total_added, log_callback ScrapingStopped (tick s))
      else if get_done (checkpoint s) kw \<ge> MAX_VALID_PER_KEYWORD
      then run_keywords env api_keys p kws total_added (log_callback (Skipping kw) (tick s))
      else
        (case process_keyword env api_keys p kw (log_callback (Processing kw) (tick s)) of
           (Inl e, s1) \<Rightarrow> (Inl e, s1)
         | (Inr count, s1) \<Rightarrow>
             (case add_count total_added count of
                Inl e \<Rightarrow> (Inl e, log_callback (AddedForKeyword count kw) s1)
              | Inr total_added' \<Rightarrow>
                  (let s2 = log_callback (AddedForKeyword count kw) s1;
                       c' = (checkpoint s2)\<lparr>processed_channels := Some (existing_channels s2)\<rparr>
                   in run_keywords env api_keys p kws total_added'
                        (save_checkpoint c' (s2\<lparr>checkpoint := c'\<rparr>))))))"

text \<open>
  The dedup set as \<^verbatim>\<open>run_scraper\<close> seeds it:
  \<^verbatim>\<open>set(row[2] for row in all_values[1:] if len(row) >= 3)\<close>.
\<close>

definition seed_channels :: "string list list \<Rightarrow> string set" where
  "seed_channels all_values = set (map (\<lambda>row. row ! 2) (filter (\<lambda>row. 3 \<le> length row) (tl all_values)))"

text \<open>
  \<^verbatim>\<open>run_scraper\<close>. The state it is given holds the worksheet and the checkpoint file as they
  are before the run. The run ends with the exception that escaped, or normally.
\<close>

definition run_scraper :: "env \<Rightarrow> string list \<Rightarrow> params \<Rightarrow> state \<Rightarrow> (exn + unit) \<times> state" where
  "run_scraper env api_keys p s =
     (let s0 = log_callback ScraperStarting s in
      case manager_init api_keys s0 of
        Inl e \<Rightarrow> (Inl e, s0)
      | Inr s1 \<Rightarrow>
          (case setup_worksheet env s1 of
             (Inl e, s2) \<Rightarrow> (Inl e, s2)
           | (Inr u, s2) \<Rightarrow>
               (let s3 = (log_callback LoadingExisting s2)
                           \<lparr>existing_channels := seed_channels (sheet s2)\<rparr>;
                    s4 = log_callback (FoundExisting (card (existing_channels s3))) s3
                in case load_checkpoint s4 of
                     (Inl e, s5) \<Rightarrow> (Inl e, s5)
                   | (Inr c, s5) \<Rightarrow>
                       (case run_keywords env api_keys p (keywords p) 0 (s5\<lparr>checkpoint := c\<rparr>) of
                          (Inl e, s6) \<Rightarrow> (Inl e, s6)
                        | (Inr total_added, s6) \<Rightarrow> (Inr (), log_callback (Done total_added) s6)))))"

subsection \<open>Vocabulary for the attempts of one request\<close>

text \<open>
  The key the \<open>j\<close>-th attempt receives when the request starts with the cursor at \<open>i\<close>.
\<close>

definition key_at :: "string list \<Rightarrow> nat \<Rightarrow> nat \<Rightarrow> string" where
  "key_at api_keys i j = api_keys ! ((i + j) mod length api_keys)"

text \<open>What a failed attempt that the loop survives emits after the client was built.\<close>

definition failure_events :: "exn \<Rightarrow> event list" where
  "failure_events e =
     (if quota_class e then [Log (WarnRotate e), Sleep 200] else [Log (WarnRetry e), Sleep 1500])"

text \<open>
  The events of consecutive failed attempts with the errors \<open>errs\<close>, the first made with the
  cursor at \<open>i\<close>.
\<close>

definition attempt_events :: "string list \<Rightarrow> nat \<Rightarrow> exn list \<Rightarrow> event list" where
  "attempt_events api_keys i errs =
     concat (map (\<lambda>j. Build (key_at api_keys i j) # failure_events (errs ! j)) [0..<length errs])"

text \<open>The errors after which the loop goes on to its next iteration.\<close>

definition retried :: "exn \<Rightarrow> bool" where
  "retried e = (quota_class e \<or> \<not> is_HttpError e)"

definition after_failures :: "string list \<Rightarrow> exn list \<Rightarrow> state \<Rightarrow> state" where
  "after_failures api_keys errs s =
     s\<lparr>current_key_index := (current_key_index s + length errs) mod length api_keys,
       ticks := ticks s + length errs,
       trace := trace s @ attempt_events api_keys (current_key_index s) errs\<rparr>"

text \<open>The keys for which a client was built, in order.\<close>

fun built :: "event list \<Rightarrow> string list" where
  "built [] = []"
| "built (Build k # evs) = k # built evs"
| "built (e # evs) = built evs"

subsection \<open>Vocabulary for the shape of an address\<close>

text \<open>
  The words a pattern denotes, independently of any matching strategy; the shape of an address
  as the specification words it (local part, \<open>@\<close>, domain, dot, two or more letters); and
  being a substring.
\<close>

inductive matches :: "atom list \<Rightarrow> string \<Rightarrow> bool" where
  matches_Nil: "matches [] []"
| matches_Lit: "matches p w \<Longrightarrow> matches (Lit c # p) (c # w)"
| matches_Rep: "m \<le> length u \<Longrightarrow> list_all cls u \<Longrightarrow> matches p w \<Longrightarrow> matches (Rep m cls # p) (u @ w)"

definition email_shape :: "string \<Rightarrow> bool" where
  "email_shape e =
     (\<exists>local dom tld. e = local @ ''@'' @ dom @ ''.'' @ tld
        \<and> local \<noteq> [] \<and> list_all local_class local
        \<and> dom \<noteq> [] \<and> list_all domain_class dom
        \<and> 2 \<le> length tld \<and> list_all letter tld)"

definition substring :: "string \<Rightarrow> string \<Rightarrow> bool" where
  "substring e t = (\<exists>pre suf. t = pre @ e @ suf)"

subsection \<open>Vocabulary for the effects of a scan\<close>

text \<open>The channel URL of a worksheet row, \<^verbatim>\<open>row[2]\<close>.\<close>

definition url_of :: "string list \<Rightarrow> string" where
  "url_of row = row ! 2"

text \<open>
  From \<open>s\<close> to \<open>s'\<close> the worksheet only grew, the new rows carry pairwise different URLs,
  none of which was in the dedup set of \<open>s\<close>, and the dedup set of \<open>s'\<close> holds the old
  set and the URLs of the new rows.
\<close>

definition fresh_rows :: "state \<Rightarrow> state \<Rightarrow> bool" where
  "fresh_rows s s' =
     (\<exists>new. sheet s' = sheet s @ new
        \<and> distinct (map url_of new)
        \<and> (\<forall>r\<in>set new. url_of r \<notin> existing_channels s)
        \<and> existing_channels s \<union> url_of ` set new \<subseteq> existing_channels s')"

text \<open>The entry \<^verbatim>\<open>positions[K]\<close> of a checkpoint: missing, or a token, or \<^verbatim>\<open>null\<close>.\<close>

definition position_entry :: "checkpoint \<Rightarrow> string \<Rightarrow> string option option" where
  "position_entry c K = (case positions c of None \<Rightarrow> None | Some m \<Rightarrow> m K)"

definition same_progress :: "string \<Rightarrow> checkpoint \<Rightarrow> checkpoint \<Rightarrow> bool" where
  "same_progress K c c' = (position_entry c' K = position_entry c K \<and> get_done c' K = get_done c K)"

text \<open>
  From \<open>s\<close> to \<open>s'\<close> nothing happened to the keyword \<open>K\<close>: its cursor and its count are the
  same in the checkpoint dictionary, the checkpoint file is the old one or was written with
  the same cursor and count for \<open>K\<close>, and no row with the keyword \<open>K\<close> was appended.
\<close>

definition untouched :: "string \<Rightarrow> state \<Rightarrow> state \<Rightarrow> bool" where
  "untouched K s s' =
     (same_progress K (checkpoint s) (checkpoint s')
      \<and> (disk s' = disk s \<or> (\<exists>c. disk s' = Stored c \<and> same_progress K (checkpoint s) c))
      \<and> (\<exists>rows. sheet s' = sheet s @ rows \<and> (\<forall>r\<in>set rows. r ! 3 \<noteq> K)))"

subsection \<open>Concrete inputs\<close>

definition state0 :: state where
  "state0 = \<lparr>current_key_index = 0, ticks = 0, trace = [], sheet = [],
     existing_channels = {}, checkpoint = empty_dict, disk = Missing\<rparr>"

text \<open>A call that hits the quota on its first attempt and succeeds afterwards.\<close>

definition quota_then_ok :: "nat \<Rightarrow> string \<Rightarrow> exn + string" where
  "quota_then_ok t yt = (if t = 0 then Inl (HttpError (Some 403)) else Inr (''page for '' @ yt))"

text \<open>A call that times out for the key \<open>A\<close> and answers with the key it was given otherwise.\<close>

definition timeout_on_A :: "nat \<Rightarrow> string \<Rightarrow> exn + string" where
  "timeout_on_A t yt = (if yt = ''A'' then Inl (OtherError ''timed out'') else Inr yt)"

text \<open>A call that always fails with a server error.\<close>

definition server_error :: "nat \<Rightarrow> string \<Rightarrow> exn + string" where
  "server_error t yt = Inl (HttpError (Some 500))"

text \<open>Collaborators that answer every request with nothing, and never ask to stop.\<close>

definition quiet_env :: env where
  "quiet_env =
     \<lparr>should_stop = (\<lambda>t. False),
      search_list = (\<lambda>t yt q tok. Inr \<lparr>items = [], nextPageToken = None\<rparr>),
      channels_list = (\<lambda>t yt ids. Inr []),
      content_details = (\<lambda>t yt cid. Inr ()),
      finish_time = (\<lambda>t cid. 0),
      sheets_connect = None,
      worksheet_found = True\<rparr>"

definition yoga_channel :: channel where
  "yoga_channel =
     \<lparr>channel_id = Some ''UC1'', title = Some ''Yoga'',
      description = Some ''mail bob@x.org'', subscriberCount = Count 500,
      country = Some ''us''\<rparr>"

text \<open>
  A search with two pages for every keyword; the same channel is the only hit on both.
\<close>

definition two_page_env :: env where
  "two_page_env =
     quiet_env
       \<lparr>search_list := (\<lambda>t yt q tok.
           Inr \<lparr>items = [Snippet (Some ''UC1'')],
                nextPageToken = (if tok = None then Some ''P2'' else None)\<rparr>),
        channels_list := (\<lambda>t yt ids. Inr [yoga_channel])\<rparr>"

definition params0 :: params where
  "params0 = \<lparr>keywords = [''yoga''], min_subs = 100, max_subs = 1000, inactivity_days = 90\<rparr>"

text \<open>A checkpoint of a run that stopped after one page of the keyword \<open>yoga\<close>.\<close>

definition resumed_checkpoint :: checkpoint where
  "resumed_checkpoint =
     \<lparr>positions = Some [''yoga'' \<mapsto> Some ''P2''], keywords_done = Some [''yoga'' \<mapsto> 3],
      processed_channels = None\<rparr>"

text \<open>
  A checkpoint in which the keyword \<open>yoga\<close> has reached the cap, with its cursor on page
  \<open>P2\<close>, and a state that holds it in memory and on disk.
\<close>

definition finished_checkpoint :: checkpoint where
  "finished_checkpoint =
     \<lparr>positions = Some [''yoga'' \<mapsto> Some ''P2''], keywords_done = Some [''yoga'' \<mapsto> 100],
      processed_channels = None\<rparr>"

definition finished_state :: state where
  "finished_state = state0\<lparr>checkpoint := finished_checkpoint, disk := Stored finished_checkpoint\<rparr>"

section \<open>Properties\<close>

subsection \<open>Key rotation\<close>

lemma get_client_ok:
  "current_key_index s < length api_keys \<Longrightarrow>
   get_client api_keys s =
     (Inr (api_keys ! current_key_index s),
      emit (Build (api_keys ! current_key_index s))
        (s\<lparr>current_key_index := (current_key_index s + 1) mod length api_keys\<rparr>))"
  by (simp add: get_client_def Let_def)

lemma emit_fields [simp]:
  "current_key_index (emit e s) = current_key_index s"
  "ticks (emit e s) = ticks s"
  "trace (emit e s) = trace s @ [e]"
  "sheet (emit e s) = sheet s"
  "existing_channels (emit e s) = existing_channels s"
  "checkpoint (emit e s) = checkpoint s"
  "disk (emit e s) = disk s"
  by (simp_all add: emit_def)

lemma grants_cursor:
  "current_key_index s < length api_keys \<Longrightarrow>
   \<exists>ks s'. grants n api_keys s = (Inr ks, s') \<and>
     current_key_index s' = (current_key_index s + n) mod length api_keys"
proof (induction n arbitrary: s)
  case 0
  then show ?case by simp
next
  case (Suc n)
  let ?N = "length api_keys"
  let ?s1 = "emit (Build (api_keys ! current_key_index s))
        (s\<lparr>current_key_index := (current_key_index s + 1) mod ?N\<rparr>)"
  have pos: "0 < ?N"
    using Suc.prems by arith
  have lt: "current_key_index ?s1 < ?N"
    using pos by simp
  from Suc.IH [OF lt] obtain ks s' where
    g: "grants n api_keys ?s1 = (Inr ks, s')" and
    c: "current_key_index s' = (current_key_index ?s1 + n) mod ?N"
    by blast
  have "(current_key_index ?s1 + n) mod ?N = (current_key_index s + Suc n) mod ?N"
    by (simp add: mod_add_left_eq)
  with g c show ?case
    by (simp add: get_client_ok [OF Suc.prems])
qed

text \<open>
  C5. For a pool of \<open>N \<ge> 1\<close> keys and every cursor position inside the pool, \<open>N\<close> consecutive
  \<^verbatim>\<open>get_client\<close> grants all succeed and leave the cursor on the index it started with.
\<close>

theorem round_robin_closure:
  assumes "1 \<le> length api_keys" and "current_key_index s < length api_keys"
  shows "\<exists>ks s'. grants (length api_keys) api_keys s = (Inr ks, s') \<and>
           current_key_index s' = current_key_index s"
  using grants_cursor [OF assms(2), of "length api_keys"] assms(2) by simp

text \<open>
  Three keys, the cursor on the last of them.
\<close>

theorem round_robin_closure_witness:
  "1 \<le> length [''k1'', ''k2'', ''k3'']
   \<and> current_key_index (state0\<lparr>current_key_index := 2\<rparr>) < length [''k1'', ''k2'', ''k3'']
   \<and> (\<exists>ks s'. grants (length [''k1'', ''k2'', ''k3'']) [''k1'', ''k2'', ''k3'']
                  (state0\<lparr>current_key_index := 2\<rparr>) = (Inr ks, s')
         \<and> current_key_index s' = current_key_index (state0\<lparr>current_key_index := 2\<rparr>))"
proof -
  have a: "1 \<le> length [''k1'', ''k2'', ''k3'']" by simp
  have b: "current_key_index (state0\<lparr>current_key_index := 2\<rparr>) < length [''k1'', ''k2'', ''k3'']"
    by simp
  show ?thesis by (intro conjI a b round_robin_closure [OF a b])
qed

subsection \<open>Retries of one request\<close>

lemma tick_fields [simp]:
  "current_key_index (tick s) = current_key_index s"
  "ticks (tick s) = Suc (ticks s)"
  "trace (tick s) = trace s"
  "sheet (tick s) = sheet s"
  "existing_channels (tick s) = existing_channels s"
  "checkpoint (tick s) = checkpoint s"
  "disk (tick s) = disk s"
  by (simp_all add: tick_def)

lemma log_sleep_fields [simp]:
  "log_callback l s = emit (Log l) s"
  "sleep ms s = emit (Sleep ms) s"
  by (simp_all add: log_callback_def sleep_def)

lemma attempt_events_Nil [simp]: "attempt_events api_keys i [] = []"
  by (simp add: attempt_events_def)

lemma key_at_shift:
  "key_at api_keys (Suc i mod length api_keys) j = key_at api_keys i (Suc j)"
  by (simp add: key_at_def mod_add_left_eq)

lemma quota_is_http: "quota_class e \<Longrightarrow> is_HttpError e"
  by (cases e) simp_all

lemma attempt_events_Cons:
  "attempt_events api_keys i (e # es) =
     Build (key_at api_keys i 0) # failure_events e
       @ attempt_events api_keys (Suc i mod length api_keys) es"
proof -
  have "[0..<length (e # es)] = 0 # map Suc [0..<length es]"
    by (simp add: upt_conv_Cons map_Suc_upt del: upt_Suc)
  then show ?thesis
    by (simp add: attempt_events_def key_at_shift comp_def del: upt_Suc)
qed

lemma state_eqI:
  "current_key_index a = current_key_index b \<Longrightarrow> ticks a = ticks b \<Longrightarrow> trace a = trace b \<Longrightarrow>
   sheet a = sheet b \<Longrightarrow> existing_channels a = existing_channels b \<Longrightarrow>
   checkpoint a = checkpoint b \<Longrightarrow> disk a = disk b \<Longrightarrow> (a::state) = b"
  by simp

lemma after_failures_Nil:
  "current_key_index s < length api_keys \<Longrightarrow> after_failures api_keys [] s = s"
  by (simp add: after_failures_def)

lemma api_loop_failures:
  "current_key_index s < length api_keys \<Longrightarrow> length errs \<le> n \<Longrightarrow>
   \<forall>j<length errs. func (ticks s + j) (key_at api_keys (current_key_index s) j) = Inl (errs ! j)
      \<and> retried (errs ! j) \<Longrightarrow>
   api_loop api_keys func n last_exc s =
     api_loop api_keys func (n - length errs)
       (if errs = [] then last_exc else Some (last errs)) (after_failures api_keys errs s)"
proof (induction errs arbitrary: n s last_exc)
  case Nil
  then show ?case by (simp add: after_failures_Nil)
next
  case (Cons e es)
  let ?N = "length api_keys"
  let ?i = "current_key_index s"
  obtain m where n: "n = Suc m" using Cons.prems(2) by (cases n) auto
  have pos: "0 < ?N" using Cons.prems(1) by arith
  have k0: "key_at api_keys ?i 0 = api_keys ! ?i"
    using Cons.prems(1) by (simp add: key_at_def)
  from Cons.prems(3) have f0: "func (ticks s) (api_keys ! ?i) = Inl e" and r0: "retried e"
    using k0 by fastforce+
  let ?s1 = "emit (Build (api_keys ! ?i)) (s\<lparr>current_key_index := (?i + 1) mod ?N\<rparr>)"
  let ?s2 = "(tick ?s1)\<lparr>trace := trace ?s1 @ failure_events e\<rparr>"
  have step: "api_loop api_keys func n last_exc s = api_loop api_keys func m (Some e) ?s2"
  proof (cases "quota_class e")
    case True
    then show ?thesis
      using f0 quota_is_http [OF True]
      by (simp add: n get_client_ok [OF Cons.prems(1)] failure_events_def emit_def tick_def)
  next
    case False
    with r0 have "\<not> is_HttpError e" by (simp add: retried_def)
    with False show ?thesis
      using f0
      by (simp add: n get_client_ok [OF Cons.prems(1)] failure_events_def emit_def tick_def)
  qed
  have i2: "current_key_index ?s2 = (?i + 1) mod ?N" by simp
  have lt2: "current_key_index ?s2 < ?N" using pos by simp
  have len2: "length es \<le> m" using Cons.prems(2) n by simp
  have fs2: "\<forall>j<length es. func (ticks ?s2 + j) (key_at api_keys (current_key_index ?s2) j) = Inl (es ! j)
      \<and> retried (es ! j)"
  proof (intro allI impI)
    fix j assume "j < length es"
    then have "Suc j < length (e # es)" by simp
    with Cons.prems(3) have "func (ticks s + Suc j) (key_at api_keys ?i (Suc j)) = Inl ((e # es) ! Suc j)
      \<and> retried ((e # es) ! Suc j)" by blast
    then show "func (ticks ?s2 + j) (key_at api_keys (current_key_index ?s2) j) = Inl (es ! j)
      \<and> retried (es ! j)"
      by (simp add: key_at_shift)
  qed
  have st: "after_failures api_keys es ?s2 = after_failures api_keys (e # es) s"
    by (rule state_eqI) (simp_all add: after_failures_def attempt_events_Cons k0 mod_add_left_eq)
  have "api_loop api_keys func m (Some e) ?s2 =
     api_loop api_keys func (m - length es)
       (if es = [] then Some e else Some (last es)) (after_failures api_keys es ?s2)"
    by (rule Cons.IH [OF lt2 len2 fs2])
  with step st show ?case by (simp add: n)
qed


lemma api_loop_success:
  "current_key_index s < length api_keys \<Longrightarrow>
   func (ticks s) (api_keys ! current_key_index s) = Inr v \<Longrightarrow>
   api_loop api_keys func (Suc m) last_exc s =
     (Inr v, tick (emit (Build (api_keys ! current_key_index s))
        (s\<lparr>current_key_index := Suc (current_key_index s) mod length api_keys\<rparr>)))"
  by (simp add: get_client_ok)

lemma api_loop_ticks:
  "ticks (snd (api_loop api_keys func n last_exc s)) \<le> ticks s + n"
proof (induction n arbitrary: s last_exc)
  case 0
  then show ?case by simp
next
  case (Suc n)
  show ?case
  proof (cases "current_key_index s < length api_keys")
    case False
    then show ?thesis by (simp add: get_client_def)
  next
    case True
    let ?s1 = "emit (Build (api_keys ! current_key_index s))
        (s\<lparr>current_key_index := Suc (current_key_index s) mod length api_keys\<rparr>)"
    show ?thesis
    proof (cases "func (ticks s) (api_keys ! current_key_index s)")
      case (Inr v)
      then show ?thesis by (simp add: get_client_ok [OF True])
    next
      case (Inl e)
      have a: "ticks (snd (api_loop api_keys func n (Some e)
                 (emit (Sleep 200) (emit (Log (WarnRotate e)) (tick ?s1))))) \<le> ticks s + Suc n"
        using Suc.IH [of "Some e" "emit (Sleep 200) (emit (Log (WarnRotate e)) (tick ?s1))"]
        by simp
      have b: "ticks (snd (api_loop api_keys func n (Some e)
                 (emit (Sleep 1500) (emit (Log (WarnRetry e)) (tick ?s1))))) \<le> ticks s + Suc n"
        using Suc.IH [of "Some e" "emit (Sleep 1500) (emit (Log (WarnRetry e)) (tick ?s1))"]
        by simp
      from Inl a b show ?thesis by (simp add: get_client_ok [OF True])
    qed
  qed
qed

lemma after_failures_fields [simp]:
  "current_key_index (after_failures api_keys errs s) =
     (current_key_index s + length errs) mod length api_keys"
  "ticks (after_failures api_keys errs s) = ticks s + length errs"
  "trace (after_failures api_keys errs s) =
     trace s @ attempt_events api_keys (current_key_index s) errs"
  by (simp_all add: after_failures_def)

lemma api_request_all_fail:
  assumes "current_key_index s < length api_keys"
    and "length errs = length api_keys"
    and "\<forall>j<length errs.
           func (ticks s + j) (key_at api_keys (current_key_index s) j) = Inl (errs ! j)
           \<and> retried (errs ! j)"
  shows "api_request api_keys func s = (Inl (last errs), after_failures api_keys errs s)"
proof -
  have ne: "errs \<noteq> []" using assms(1,2) by auto
  have "api_loop api_keys func (length api_keys) None s =
     api_loop api_keys func (length api_keys - length errs)
       (if errs = [] then None else Some (last errs)) (after_failures api_keys errs s)"
    using assms by (intro api_loop_failures) simp_all
  with ne assms(2) show ?thesis by (simp add: api_request_def)
qed

lemma api_request_then_success:
  assumes "current_key_index s < length api_keys"
    and "length errs < length api_keys"
    and "\<forall>j<length errs.
           func (ticks s + j) (key_at api_keys (current_key_index s) j) = Inl (errs ! j)
           \<and> retried (errs ! j)"
    and "func (ticks s + length errs) (key_at api_keys (current_key_index s) (length errs)) = Inr v"
  shows "api_request api_keys func s =
     (Inr v, tick (emit (Build (key_at api_keys (current_key_index s) (length errs)))
        ((after_failures api_keys errs s)
           \<lparr>current_key_index := Suc (current_key_index s + length errs) mod length api_keys\<rparr>)))"
proof -
  let ?N = "length api_keys"
  let ?a = "after_failures api_keys errs s"
  have pos: "0 < ?N" using assms(1) by arith
  obtain m where m: "?N - length errs = Suc m"
    using assms(2) by (metis Suc_diff_Suc)
  have red: "api_loop api_keys func ?N None s =
     api_loop api_keys func (?N - length errs)
       (if errs = [] then None else Some (last errs)) ?a"
    using assms(1-3) by (intro api_loop_failures) simp_all
  have lt: "current_key_index ?a < ?N" using pos by simp
  have key: "api_keys ! current_key_index ?a = key_at api_keys (current_key_index s) (length errs)"
    by (simp add: key_at_def)
  have ok: "func (ticks ?a) (api_keys ! current_key_index ?a) = Inr v"
    using assms(4) by (simp add: key_at_def)
  have "api_loop api_keys func (Suc m) (if errs = [] then None else Some (last errs)) ?a =
     (Inr v, tick (emit (Build (api_keys ! current_key_index ?a))
        (?a\<lparr>current_key_index := Suc (current_key_index ?a) mod ?N\<rparr>)))"
    using lt ok by (rule api_loop_success [where func = func])
  with red m show ?thesis
    by (simp add: api_request_def key_at_def mod_Suc_eq)
qed

lemma built_append: "built (xs @ ys) = built xs @ built ys"
  by (induction xs rule: built.induct) simp_all

lemma built_failure_events: "built (failure_events e) = []"
  by (simp add: failure_events_def)

lemma built_concat: "built (concat xss) = concat (map built xss)"
  by (induction xss) (simp_all add: built_append)

lemma built_attempt_events:
  "built (attempt_events api_keys i errs) = map (key_at api_keys i) [0..<length errs]"
  by (simp add: attempt_events_def built_concat comp_def built_failure_events
      concat_map_singleton del: upt_Suc)

lemma quota_retried: "quota_class e \<Longrightarrow> retried e"
  by (simp add: retried_def)

text \<open>
  C4. With a pool of \<open>N\<close> keys, let the first attempts of a wrapped request fail with the
  quota-class errors \<open>errs\<close> (HTTP 403 or 429), attempt \<open>j\<close> being made with the key
  \<open>j\<close> places after the cursor. Then \<^verbatim>\<open>api_request\<close> makes at most \<open>N\<close> attempts; if all \<open>N\<close>
  attempts fail that way it raises the last error, having used every key once in rotation
  order; and if the attempt after the failures returns \<open>v\<close>, the caller receives \<open>v\<close>, the
  attempts having gone to consecutive keys.
\<close>

theorem api_request_quota_rotation:
  assumes "current_key_index s < length api_keys"
    and "length errs \<le> length api_keys"
    and "\<forall>j<length errs.
           func (ticks s + j) (key_at api_keys (current_key_index s) j) = Inl (errs ! j)
           \<and> quota_class (errs ! j)"
  shows "ticks (snd (api_request api_keys func s)) \<le> ticks s + length api_keys
     \<and> (length errs = length api_keys \<longrightarrow>
          fst (api_request api_keys func s) = Inl (last errs)
          \<and> ticks (snd (api_request api_keys func s)) = ticks s + length api_keys
          \<and> built (trace (snd (api_request api_keys func s))) =
              built (trace s) @ map (key_at api_keys (current_key_index s)) [0..<length api_keys])
     \<and> (length errs < length api_keys
          \<and> func (ticks s + length errs) (key_at api_keys (current_key_index s) (length errs)) = Inr v
          \<longrightarrow>
          fst (api_request api_keys func s) = Inr v
          \<and> ticks (snd (api_request api_keys func s)) = ticks s + length errs + 1
          \<and> built (trace (snd (api_request api_keys func s))) =
              built (trace s) @ map (key_at api_keys (current_key_index s)) [0..<length errs + 1])"
proof (intro conjI impI)
  show "ticks (snd (api_request api_keys func s)) \<le> ticks s + length api_keys"
    by (simp add: api_request_def api_loop_ticks)
next
  assume full: "length errs = length api_keys"
  have "api_request api_keys func s = (Inl (last errs), after_failures api_keys errs s)"
    using assms(1) full assms(3) by (intro api_request_all_fail) (simp_all add: quota_retried)
  then show "fst (api_request api_keys func s) = Inl (last errs)"
    and "ticks (snd (api_request api_keys func s)) = ticks s + length api_keys"
    and "built (trace (snd (api_request api_keys func s))) =
              built (trace s) @ map (key_at api_keys (current_key_index s)) [0..<length api_keys]"
    using full by (simp_all add: built_append built_attempt_events)
next
  assume ok: "length errs < length api_keys
          \<and> func (ticks s + length errs) (key_at api_keys (current_key_index s) (length errs)) = Inr v"
  have "api_request api_keys func s =
     (Inr v, tick (emit (Build (key_at api_keys (current_key_index s) (length errs)))
        ((after_failures api_keys errs s)
           \<lparr>current_key_index := Suc (current_key_index s + length errs) mod length api_keys\<rparr>)))"
    using assms(1) ok assms(3) by (intro api_request_then_success) (simp_all add: quota_retried)
  then show "fst (api_request api_keys func s) = Inr v"
    and "ticks (snd (api_request api_keys func s)) = ticks s + length errs + 1"
    and "built (trace (snd (api_request api_keys func s))) =
              built (trace s) @ map (key_at api_keys (current_key_index s)) [0..<length errs + 1]"
    by (simp_all add: built_append built_attempt_events)
qed

text \<open>
  The scenario of the specification: two keys, the first call raises HTTP 403, the second
  call succeeds.
\<close>

theorem api_request_quota_rotation_witness:
  "current_key_index state0 < length [''k1'', ''k2'']
   \<and> quota_then_ok (ticks state0) ''k1'' = Inl (HttpError (Some 403))
   \<and> quota_then_ok (ticks state0 + 1) ''k2'' = Inr ''page for k2''
   \<and> fst (api_request [''k1'', ''k2''] quota_then_ok state0) = Inr ''page for k2''
   \<and> ticks (snd (api_request [''k1'', ''k2''] quota_then_ok state0)) = 2
   \<and> built (trace (snd (api_request [''k1'', ''k2''] quota_then_ok state0))) = [''k1'', ''k2'']"
  using api_request_quota_rotation [of state0 "[''k1'', ''k2'']" "[HttpError (Some 403)]"
      quota_then_ok "''page for k2''"]
  by (simp add: state0_def key_at_def quota_then_ok_def)


lemma api_loop_trace:
  "\<exists>evs. trace (snd (api_loop api_keys func n last_exc s)) = trace s @ evs
     \<and> (0 < n \<and> current_key_index s < length api_keys \<longrightarrow>
          (\<exists>evs'. evs = Build (api_keys ! current_key_index s) # evs'))"
proof (induction n arbitrary: s last_exc)
  case 0
  then show ?case by simp
next
  case (Suc n)
  show ?case
  proof (cases "current_key_index s < length api_keys")
    case False
    then show ?thesis by (simp add: get_client_def)
  next
    case True
    let ?k = "api_keys ! current_key_index s"
    let ?s1 = "emit (Build ?k)
        (s\<lparr>current_key_index := Suc (current_key_index s) mod length api_keys\<rparr>)"
    show ?thesis
    proof (cases "func (ticks s) ?k")
      case (Inr v)
      then show ?thesis using True by (simp add: get_client_ok [OF True])
    next
      case (Inl e)
      let ?q = "emit (Sleep 200) (emit (Log (WarnRotate e)) (tick ?s1))"
      let ?r = "emit (Sleep 1500) (emit (Log (WarnRetry e)) (tick ?s1))"
      from Suc.IH [of "Some e" ?q] obtain evq where
        q: "trace (snd (api_loop api_keys func n (Some e) ?q)) = trace ?q @ evq" by blast
      from Suc.IH [of "Some e" ?r] obtain evr where
        r: "trace (snd (api_loop api_keys func n (Some e) ?r)) = trace ?r @ evr" by blast
      from Inl q r True show ?thesis by (simp add: get_client_ok [OF True])
    qed
  qed
qed

lemma transient_events:
  assumes "\<forall>j<length errs. \<not> is_HttpError (errs ! j)"
  shows "attempt_events api_keys i errs =
     concat (map (\<lambda>j. [Build (key_at api_keys i j), Log (WarnRetry (errs ! j)), Sleep 1500])
       [0..<length errs])"
proof -
  have "\<And>j. j < length errs \<Longrightarrow> \<not> quota_class (errs ! j)"
    using assms quota_is_http by blast
  then show ?thesis
    unfolding attempt_events_def
    by (intro arg_cong [where f = concat] map_cong) (simp_all add: failure_events_def)
qed

text \<open>
  C3, as the code has it. Let the first attempts of a wrapped request fail with the
  exceptions \<open>errs\<close>, none of them an \<^verbatim>\<open>HttpError\<close>. After each such failure \<^verbatim>\<open>api_request\<close>
  logs a warning and sleeps 1.5 seconds; the attempt that follows is made with the next key of
  the pool, because every attempt takes its client from \<^verbatim>\<open>get_client\<close>. The attempts number
  at most \<open>N\<close>, and when all \<open>N\<close> fail the last error is raised.
\<close>

theorem api_request_transient_retry:
  assumes "current_key_index s < length api_keys"
    and "length errs \<le> length api_keys"
    and "\<forall>j<length errs.
           func (ticks s + j) (key_at api_keys (current_key_index s) j) = Inl (errs ! j)
           \<and> \<not> is_HttpError (errs ! j)"
  shows "ticks (snd (api_request api_keys func s)) \<le> ticks s + length api_keys
     \<and> (\<exists>evs. trace (snd (api_request api_keys func s)) =
            trace s
            @ concat (map (\<lambda>j. [Build (key_at api_keys (current_key_index s) j),
                                 Log (WarnRetry (errs ! j)), Sleep 1500]) [0..<length errs])
            @ evs
          \<and> (length errs < length api_keys \<longrightarrow>
               (\<exists>evs'. evs = Build (key_at api_keys (current_key_index s) (length errs)) # evs')))
     \<and> (length errs = length api_keys \<longrightarrow> fst (api_request api_keys func s) = Inl (last errs))"
proof (intro conjI)
  let ?N = "length api_keys"
  let ?a = "after_failures api_keys errs s"
  let ?l = "if errs = [] then None else Some (last errs)"
  have pos: "0 < ?N" using assms(1) by arith
  have re: "\<forall>j<length errs.
           func (ticks s + j) (key_at api_keys (current_key_index s) j) = Inl (errs ! j)
           \<and> retried (errs ! j)"
    using assms(3) by (simp add: retried_def)
  have nh: "\<forall>j<length errs. \<not> is_HttpError (errs ! j)"
    using assms(3) by simp
  show "ticks (snd (api_request api_keys func s)) \<le> ticks s + ?N"
    by (simp add: api_request_def api_loop_ticks)
  have red: "api_request api_keys func s = api_loop api_keys func (?N - length errs) ?l ?a"
    unfolding api_request_def using assms(1,2) re by (rule api_loop_failures)
  obtain evs where
    tr: "trace (snd (api_loop api_keys func (?N - length errs) ?l ?a)) = trace ?a @ evs" and
    hd: "0 < ?N - length errs \<and> current_key_index ?a < ?N \<longrightarrow>
          (\<exists>evs'. evs = Build (api_keys ! current_key_index ?a) # evs')"
    using api_loop_trace [of api_keys func "?N - length errs" ?l ?a] by blast
  have lt: "current_key_index ?a < ?N" using pos by simp
  show "\<exists>evs. trace (snd (api_request api_keys func s)) =
            trace s
            @ concat (map (\<lambda>j. [Build (key_at api_keys (current_key_index s) j),
                                 Log (WarnRetry (errs ! j)), Sleep 1500]) [0..<length errs])
            @ evs
          \<and> (length errs < ?N \<longrightarrow>
               (\<exists>evs'. evs = Build (key_at api_keys (current_key_index s) (length errs)) # evs'))"
  proof (rule exI [of _ evs], intro conjI impI)
    show "trace (snd (api_request api_keys func s)) =
            trace s
            @ concat (map (\<lambda>j. [Build (key_at api_keys (current_key_index s) j),
                                 Log (WarnRetry (errs ! j)), Sleep 1500]) [0..<length errs])
            @ evs"
      using tr by (simp add: red transient_events [OF nh])
  next
    assume "length errs < ?N"
    with hd lt show "\<exists>evs'. evs = Build (key_at api_keys (current_key_index s) (length errs)) # evs'"
      by (simp add: key_at_def)
  qed
  show "length errs = ?N \<longrightarrow> fst (api_request api_keys func s) = Inl (last errs)"
  proof
    assume full: "length errs = ?N"
    have "api_request api_keys func s = (Inl (last errs), ?a)"
      using assms(1) full re by (rule api_request_all_fail)
    then show "fst (api_request api_keys func s) = Inl (last errs)" by simp
  qed
qed

text \<open>
  Two keys, the call times out with the first key: the retry is made with the second.
\<close>

theorem api_request_transient_retry_witness:
  "current_key_index state0 < length [''A'', ''B'']
   \<and> timeout_on_A (ticks state0) ''A'' = Inl (OtherError ''timed out'')
   \<and> \<not> is_HttpError (OtherError ''timed out'')
   \<and> ticks (snd (api_request [''A'', ''B''] timeout_on_A state0)) \<le> 2
   \<and> (\<exists>evs'. trace (snd (api_request [''A'', ''B''] timeout_on_A state0)) =
         [Build ''A'', Log (WarnRetry (OtherError ''timed out'')), Sleep 1500, Build ''B''] @ evs')"
  using api_request_transient_retry [of state0 "[''A'', ''B'']" "[OtherError ''timed out'']"
      timeout_on_A]
  by (auto simp add: state0_def key_at_def timeout_on_A_def)

text \<open>
  C3 as stated does not hold. With the keys \<open>A\<close> and \<open>B\<close> and a call that times out when made
  with \<open>A\<close>, the request succeeds with the answer for \<open>B\<close>: the retry went to the next key,
  not to the same one. And an HTTP 500, which is not a 403 or 429 either, is raised after a
  single attempt.
\<close>

theorem api_request_same_key_counterexample:
  "fst (api_request [''A'', ''B''] timeout_on_A state0) = Inr ''B''
   \<and> built (trace (snd (api_request [''A'', ''B''] timeout_on_A state0))) = [''A'', ''B'']
   \<and> fst (api_request [''A'', ''B''] server_error state0) = Inl (HttpError (Some 500))
   \<and> ticks (snd (api_request [''A'', ''B''] server_error state0)) = 1"
  by (simp add: api_request_def get_client_def state0_def timeout_on_A_def server_error_def
      emit_def tick_def Let_def)

subsection \<open>Email extraction\<close>

lemma first_some_SomeD:
  "first_some f js = Some r \<Longrightarrow> \<exists>j\<in>set js. f j = Some r"
  by (induction js) (auto split: option.splits)

lemma take_takeWhile_all:
  "j \<le> length (takeWhile P s) \<Longrightarrow> list_all P (take j s)"
proof -
  assume j: "j \<le> length (takeWhile P s)"
  have "take j (takeWhile P s @ dropWhile P s) = take j (takeWhile P s)"
    using j by (simp del: takeWhile_dropWhile_id)
  then have "take j s = take j (takeWhile P s)" by simp
  then have "set (take j s) \<subseteq> set (takeWhile P s)" by (simp add: set_take_subset)
  then show ?thesis
    by (auto simp: list_all_iff dest: set_takeWhileD)
qed

lemma match_here_sound:
  "match_here p s = Some n \<Longrightarrow> n \<le> length s \<and> matches p (take n s)"
proof (induction p arbitrary: s n)
  case Nil
  then show ?case by (simp add: matches_Nil)
next
  case (Cons a p)
  show ?case
  proof (cases a)
    case (Lit c)
    with Cons.prems obtain xs r where s: "s = c # xs" and r: "match_here p xs = Some r"
      and n: "n = Suc r"
      by (auto split: list.splits if_splits)
    from Cons.IH [OF r] have "r \<le> length xs" "matches p (take r xs)" by simp_all
    then show ?thesis using s n Lit by (simp add: matches_Lit)
  next
    case (Rep m cls)
    with Cons.prems have "first_some (\<lambda>j. map_option ((+) j) (match_here p (drop j s)))
       (rev [m..<Suc (length (takeWhile cls s))]) = Some n"
      by (simp del: upt_Suc)
    from first_some_SomeD [OF this] obtain j where
      j: "j \<in> set (rev [m..<Suc (length (takeWhile cls s))])" and
      f: "map_option ((+) j) (match_here p (drop j s)) = Some n"
      by blast
    from f obtain r where r: "match_here p (drop j s) = Some r" and n: "n = j + r"
      by auto
    from j have mj: "m \<le> j" and jk: "j \<le> length (takeWhile cls s)" by auto
    have jl: "j \<le> length s"
      using jk length_takeWhile_le [of cls s] by (rule order_trans)
    from Cons.IH [OF r] have rl: "r \<le> length (drop j s)" and mr: "matches p (take r (drop j s))"
      by simp_all
    have tk: "take n s = take j s @ take r (drop j s)"
      by (simp add: n take_add)
    have "matches (Rep m cls # p) (take j s @ take r (drop j s))"
      using mj jl take_takeWhile_all [OF jk] mr by (intro matches_Rep) simp_all
    then show ?thesis using rl jl tk Rep n by simp
  qed
qed

lemma matches_email_shape:
  assumes "matches email_pattern w"
  shows "email_shape w"
proof -
  from assms obtain u1 w1 where w: "w = u1 @ w1" and u1: "1 \<le> length u1" "list_all local_class u1"
    and m1: "matches [Lit (CHR ''@''), Rep 1 domain_class, Lit (CHR ''.''), Rep 2 letter] w1"
    unfolding email_pattern_def by (auto elim: matches.cases)
  from m1 obtain w2 where w1: "w1 = CHR ''@'' # w2"
    and m2: "matches [Rep 1 domain_class, Lit (CHR ''.''), Rep 2 letter] w2"
    by (auto elim: matches.cases)
  from m2 obtain u3 w3 where w2: "w2 = u3 @ w3" and u3: "1 \<le> length u3" "list_all domain_class u3"
    and m3: "matches [Lit (CHR ''.''), Rep 2 letter] w3"
    by (auto elim: matches.cases)
  from m3 obtain w4 where w3: "w3 = CHR ''.'' # w4" and m4: "matches [Rep 2 letter] w4"
    by (auto elim: matches.cases)
  from m4 obtain u5 w5 where w4: "w4 = u5 @ w5" and u5: "2 \<le> length u5" "list_all letter u5"
    and m5: "matches [] w5"
    by (auto elim: matches.cases)
  from m5 have w5: "w5 = []" by (auto elim: matches.cases)
  have "w = u1 @ ''@'' @ u3 @ ''.'' @ u5"
    by (simp add: w w1 w2 w3 w4 w5)
  moreover have "u1 \<noteq> []" "u3 \<noteq> []" using u1 u3 by auto
  ultimately show ?thesis
    unfolding email_shape_def using u1 u3 u5 by blast
qed

lemma findall_sound:
  "e \<in> set (findall p t) \<Longrightarrow> matches p e \<and> substring e t"
proof (induction p t rule: findall.induct)
  case (1 p)
  then show ?case by simp
next
  case (2 p c cs)
  show ?case
  proof (cases "match_here p (c # cs)")
    case None
    with 2 have "matches p e \<and> substring e cs" by simp
    then show ?thesis
      by (auto simp: substring_def) (metis append_Cons)
  next
    case (Some k)
    show ?thesis
    proof (cases k)
      case 0
      with Some 2 have "matches p e \<and> substring e cs" by simp
      then show ?thesis
        by (auto simp: substring_def) (metis append_Cons)
    next
      case (Suc n)
      from match_here_sound [OF Some] Suc
      have len: "Suc n \<le> length (c # cs)" and mt: "matches p (take (Suc n) (c # cs))"
        by simp_all
      from "2.prems" Some Suc
      consider "e = take (Suc n) (c # cs)" | "e \<in> set (findall p (drop n cs))"
        by auto
      then show ?thesis
      proof cases
        case 1
        have "c # cs = [] @ take (Suc n) (c # cs) @ drop (Suc n) (c # cs)" by simp
        then have "substring (take (Suc n) (c # cs)) (c # cs)"
          unfolding substring_def by blast
        with 1 mt show ?thesis by simp
      next
        case 2
        with "2.IH"(3) [OF Some Suc] have m: "matches p e" and "substring e (drop n cs)"
          by simp_all
        then obtain pre suf where "drop n cs = pre @ e @ suf"
          unfolding substring_def by blast
        then have "c # cs = (c # take n cs @ pre) @ e @ suf"
          by (metis append_Cons append_assoc append_take_drop_id)
        then have "substring e (c # cs)" unfolding substring_def by blast
        with m show ?thesis by simp
      qed
    qed
  qed
qed

text \<open>
  C9. For every input, absent or empty included, \<^verbatim>\<open>extract_emails\<close> returns no element twice,
  every element has the shape of an address and is a substring of the input, and the result
  is empty for an absent and for an empty input.
\<close>

theorem extract_emails_shape_unique:
  "distinct (extract_emails text)
   \<and> (\<forall>e\<in>set (extract_emails text).
         email_shape e \<and> substring e (case text of None \<Rightarrow> [] | Some t \<Rightarrow> t))
   \<and> extract_emails None = [] \<and> extract_emails (Some []) = []"
  by (auto simp: extract_emails_def dest: findall_sound matches_email_shape)


lemma extract_emails_example:
  "extract_emails (Some ''bob@x.org, bob@x.org'') = [''bob@x.org'']"
  by code_simp

text \<open>An address that occurs twice is returned once.\<close>

theorem extract_emails_shape_unique_witness:
  "extract_emails (Some ''bob@x.org, bob@x.org'') = [''bob@x.org'']
   \<and> distinct (extract_emails (Some ''bob@x.org, bob@x.org''))
   \<and> email_shape ''bob@x.org''
   \<and> substring ''bob@x.org'' ''bob@x.org, bob@x.org''"
  using extract_emails_shape_unique [of "Some ''bob@x.org, bob@x.org''"]
  unfolding extract_emails_example by simp

subsection \<open>Loading the checkpoint\<close>

text \<open>
  C8, as the code has it. When the checkpoint file is absent \<^verbatim>\<open>load_checkpoint\<close> returns the
  dictionary \<^verbatim>\<open>{}\<close> and logs nothing. When the file exists and reading it raises
  \<^verbatim>\<open>FileNotFoundError\<close> or \<^verbatim>\<open>JSONDecodeError\<close>, it logs one warning and returns \<^verbatim>\<open>{}\<close>. The
  dictionary \<^verbatim>\<open>{}\<close> has neither a \<^verbatim>\<open>positions\<close> nor a \<^verbatim>\<open>keywords_done\<close> key; the code reads it
  as no cursor and a count of 0 for every keyword.
\<close>

theorem load_checkpoint_fresh:
  "load_checkpoint (s\<lparr>disk := Missing\<rparr>) = (Inr empty_dict, s\<lparr>disk := Missing\<rparr>)
   \<and> (e \<in> {FileNotFoundError, JSONDecodeError} \<longrightarrow>
        load_checkpoint (s\<lparr>disk := Unreadable e\<rparr>) =
          (Inr empty_dict, log_callback (WarnCheckpoint e) (s\<lparr>disk := Unreadable e\<rparr>)))
   \<and> get_position empty_dict kw = None \<and> get_done empty_dict kw = 0"
  by (auto simp add: load_checkpoint_def empty_dict_def get_position_def get_done_def)

text \<open>A file that is not valid JSON.\<close>

theorem load_checkpoint_fresh_witness:
  "JSONDecodeError \<in> {FileNotFoundError, JSONDecodeError}
   \<and> fst (load_checkpoint (state0\<lparr>disk := Unreadable JSONDecodeError\<rparr>)) = Inr empty_dict
   \<and> trace (snd (load_checkpoint (state0\<lparr>disk := Unreadable JSONDecodeError\<rparr>))) =
        [Log (WarnCheckpoint JSONDecodeError)]"
  using load_checkpoint_fresh [of state0 JSONDecodeError]
  by (simp add: state0_def)

text \<open>
  C8 as stated does not hold. A file that exists and cannot be opened (\<^verbatim>\<open>PermissionError\<close>)
  makes \<^verbatim>\<open>load_checkpoint\<close> raise. And for an absent file the result is \<^verbatim>\<open>{}\<close>, which is not
  the dictionary \<^verbatim>\<open>{positions: {}, keywords_done: {}}\<close>.
\<close>

theorem load_checkpoint_counterexample:
  "fst (load_checkpoint (state0\<lparr>disk := Unreadable PermissionError\<rparr>)) = Inl PermissionError
   \<and> fst (load_checkpoint (state0\<lparr>disk := Missing\<rparr>)) = Inr empty_dict
   \<and> empty_dict \<noteq>
        \<lparr>positions = Some Map.empty, keywords_done = Some Map.empty, processed_channels = None\<rparr>"
  by (simp add: load_checkpoint_def empty_dict_def)

subsection \<open>The final summary\<close>

lemma process_keyword_returns_None:
  "fst (process_keyword env api_keys p kw s) = Inr count \<Longrightarrow> count = None"
  by (auto simp: process_keyword_def split: prod.splits option.splits)

text \<open>
  Whenever the first keyword of the loop is neither stopped nor skipped, the loop ends with
  an exception: the one \<^verbatim>\<open>process_keyword\<close> raised, or the \<^verbatim>\<open>TypeError\<close> of the addition.
\<close>

lemma run_keywords_raises:
  assumes "\<not> should_stop env (ticks s)"
    and "get_done (checkpoint s) kw < MAX_VALID_PER_KEYWORD"
  shows "\<exists>e. fst (run_keywords env api_keys p (kw # kws) total_added s) = Inl e"
proof -
  let ?s0 = "log_callback (Processing kw) (tick s)"
  obtain r s1 where pk: "process_keyword env api_keys p kw ?s0 = (r, s1)"
    by (cases "process_keyword env api_keys p kw ?s0")
  show ?thesis
  proof (cases r)
    case (Inl e)
    with assms pk show ?thesis by simp
  next
    case (Inr count)
    with pk have "count = None"
      using process_keyword_returns_None [of env api_keys p kw ?s0 count] by simp
    with assms pk Inr show ?thesis by simp
  qed
qed

text \<open>
  C1 fails on the code. One key, the keyword \<open>yoga\<close>, a search that finds nothing:
  \<^verbatim>\<open>process_keyword\<close> returns \<^verbatim>\<open>None\<close>, \<^verbatim>\<open>total_added += count\<close> raises \<^verbatim>\<open>TypeError\<close>, and the
  run ends without the summary line.
\<close>

theorem run_scraper_no_summary:
  "fst (run_scraper quiet_env [''k1''] params0 state0) = Inl TypeError
   \<and> trace (snd (run_scraper quiet_env [''k1''] params0 state0)) =
       [Log ScraperStarting, Log HeaderRepaired, Log LoadingExisting, Log (FoundExisting 0),
        Log (Processing ''yoga''), Build ''k1'', Log (NoMoreResults ''yoga''),
        Log (AddedForKeyword None ''yoga'')]"
  by code_simp

subsection \<open>What a request leaves alone\<close>

lemma api_loop_frame:
  "sheet (snd (api_loop api_keys func n last_exc s)) = sheet s
   \<and> existing_channels (snd (api_loop api_keys func n last_exc s)) = existing_channels s
   \<and> checkpoint (snd (api_loop api_keys func n last_exc s)) = checkpoint s
   \<and> disk (snd (api_loop api_keys func n last_exc s)) = disk s"
  by (induction n arbitrary: s last_exc)
     (auto simp: get_client_def Let_def split: sum.splits)

lemma api_request_frame:
  "sheet (snd (api_request api_keys func s)) = sheet s"
  "existing_channels (snd (api_request api_keys func s)) = existing_channels s"
  "checkpoint (snd (api_request api_keys func s)) = checkpoint s"
  "disk (snd (api_request api_keys func s)) = disk s"
  by (simp_all add: api_request_def api_loop_frame)

lemma api_request_frame':
  assumes "api_request api_keys func s = (r, s1)"
  shows "sheet s1 = sheet s" "existing_channels s1 = existing_channels s"
    "checkpoint s1 = checkpoint s" "disk s1 = disk s"
  using api_request_frame [of api_keys func s] assms by simp_all

subsection \<open>A search without hits\<close>

lemma no_hits:
  assumes "get_done (checkpoint s) kw < MAX_VALID_PER_KEYWORD"
    and "\<not> should_stop env (ticks s)"
    and "api_request api_keys
           (\<lambda>t yt. search_list env t yt kw (get_position (checkpoint s) kw)) (tick s) = (Inr sr, s1)"
    and "channel_ids (items sr) = Inr []"
  shows "process_keyword env api_keys p kw s = (Inr None, log_callback (NoMoreResults kw) s1)"
  unfolding process_keyword_def
  by (subst kw_loop.simps) (simp add: assms process_page_def max_pages_def)

lemma no_hits_store:
  assumes "get_done (checkpoint s) kw < MAX_VALID_PER_KEYWORD"
    and "\<not> should_stop env (ticks s)"
    and "api_request api_keys
           (\<lambda>t yt. search_list env t yt kw (get_position (checkpoint s) kw)) (tick s) = (Inr sr, s1)"
    and "channel_ids (items sr) = Inr []"
  shows "process_keyword env api_keys p kw s = (Inr None, log_callback (NoMoreResults kw) s1)
     \<and> sheet (snd (process_keyword env api_keys p kw s)) = sheet s
     \<and> existing_channels (snd (process_keyword env api_keys p kw s)) = existing_channels s
     \<and> checkpoint (snd (process_keyword env api_keys p kw s)) = checkpoint s
     \<and> disk (snd (process_keyword env api_keys p kw s)) = disk s"
  using no_hits [OF assms, of p] api_request_frame' [OF assms(3)]
  by (simp add: tick_def)

lemma quiet_search:
  "api_request [''k1''] (\<lambda>t yt. search_list quiet_env t yt kw tok) (tick s) =
     (Inr \<lparr>items = [], nextPageToken = None\<rparr>,
      snd (api_request [''k1''] (\<lambda>t yt. search_list quiet_env t yt kw tok) (tick s)))"
  if "current_key_index s = 0"
proof -
  have "fst (api_request [''k1''] (\<lambda>t yt. search_list quiet_env t yt kw tok) (tick s)) =
      Inr \<lparr>items = [], nextPageToken = None\<rparr>"
    using that by (simp add: api_request_def get_client_def quiet_env_def Let_def)
  then show ?thesis by (metis prod.collapse)
qed

text \<open>
  C2, as the code has it. When the first search of \<^verbatim>\<open>process_keyword\<close> returns no channel ids,
  the function logs that there are no more results and returns; it appends no row, and it
  neither changes the checkpoint dictionary nor writes the checkpoint file, so the cursor
  of the keyword keeps the value it had.
\<close>

theorem process_keyword_no_hits:
  assumes "get_done (checkpoint s) kw < MAX_VALID_PER_KEYWORD"
    and "\<not> should_stop env (ticks s)"
    and "api_request api_keys
           (\<lambda>t yt. search_list env t yt kw (get_position (checkpoint s) kw)) (tick s) = (Inr sr, s1)"
    and "channel_ids (items sr) = Inr []"
  shows "process_keyword env api_keys p kw s = (Inr None, log_callback (NoMoreResults kw) s1)
     \<and> sheet (snd (process_keyword env api_keys p kw s)) = sheet s
     \<and> existing_channels (snd (process_keyword env api_keys p kw s)) = existing_channels s
     \<and> checkpoint (snd (process_keyword env api_keys p kw s)) = checkpoint s
     \<and> disk (snd (process_keyword env api_keys p kw s)) = disk s"
  by (rule no_hits_store [OF assms])

text \<open>A fresh run, one key, a search that finds nothing.\<close>

theorem process_keyword_no_hits_witness:
  "get_done (checkpoint state0) ''yoga'' < MAX_VALID_PER_KEYWORD
   \<and> \<not> should_stop quiet_env (ticks state0)
   \<and> fst (process_keyword quiet_env [''k1''] params0 ''yoga'' state0) = Inr None
   \<and> sheet (snd (process_keyword quiet_env [''k1''] params0 ''yoga'' state0)) = sheet state0
   \<and> checkpoint (snd (process_keyword quiet_env [''k1''] params0 ''yoga'' state0)) = checkpoint state0
   \<and> disk (snd (process_keyword quiet_env [''k1''] params0 ''yoga'' state0)) = disk state0"
proof -
  have a: "get_done (checkpoint state0) ''yoga'' < MAX_VALID_PER_KEYWORD"
    by (simp add: get_done_def state0_def empty_dict_def MAX_VALID_PER_KEYWORD_def)
  have b: "\<not> should_stop quiet_env (ticks state0)"
    by (simp add: quiet_env_def)
  have c: "current_key_index state0 = 0" by (simp add: state0_def)
  have d: "channel_ids (items \<lparr>items = [], nextPageToken = None\<rparr>) = Inr []" by simp
  show ?thesis
    using process_keyword_no_hits [OF a b quiet_search [OF c] d, of params0] a b
    by (simp add: api_request_frame)
qed

text \<open>
  C2 as stated does not hold. On a fresh run, after a first search without hits, no
  checkpoint file has been written and the checkpoint dictionary has no \<^verbatim>\<open>positions\<close> key.
  And when the run had been resumed at the page token \<open>P2\<close>, that token is still the
  cursor of the keyword afterwards, in the dictionary and in the file.
\<close>

theorem process_keyword_no_hits_counterexample:
  "fst (process_keyword quiet_env [''k1''] params0 ''yoga'' state0) = Inr None
   \<and> disk (snd (process_keyword quiet_env [''k1''] params0 ''yoga'' state0)) = Missing
   \<and> positions (checkpoint (snd (process_keyword quiet_env [''k1''] params0 ''yoga'' state0))) = None
   \<and> get_position (checkpoint (snd (process_keyword quiet_env [''k1''] params0 ''yoga''
         (state0\<lparr>checkpoint := resumed_checkpoint, disk := Stored resumed_checkpoint\<rparr>)))) ''yoga''
       = Some ''P2''
   \<and> disk (snd (process_keyword quiet_env [''k1''] params0 ''yoga''
         (state0\<lparr>checkpoint := resumed_checkpoint, disk := Stored resumed_checkpoint\<rparr>)))
       = Stored resumed_checkpoint"
proof -
  let ?r = "state0\<lparr>checkpoint := resumed_checkpoint, disk := Stored resumed_checkpoint\<rparr>"
  have a: "get_done (checkpoint state0) ''yoga'' < MAX_VALID_PER_KEYWORD"
    by (simp add: get_done_def state0_def empty_dict_def MAX_VALID_PER_KEYWORD_def)
  have b: "\<not> should_stop quiet_env (ticks state0)"
    by (simp add: quiet_env_def)
  have c: "current_key_index state0 = 0" by (simp add: state0_def)
  have d: "channel_ids (items \<lparr>items = [], nextPageToken = None\<rparr>) = Inr []" by simp
  have a': "get_done (checkpoint ?r) ''yoga'' < MAX_VALID_PER_KEYWORD"
    by (simp add: get_done_def resumed_checkpoint_def MAX_VALID_PER_KEYWORD_def)
  have b': "\<not> should_stop quiet_env (ticks ?r)"
    by (simp add: quiet_env_def)
  have c': "current_key_index ?r = 0" by (simp add: state0_def)
  have p2: "get_position resumed_checkpoint ''yoga'' = Some ''P2''"
    by (simp add: get_position_def resumed_checkpoint_def)
  show ?thesis
    using no_hits_store [OF a b quiet_search [OF c] d, of params0]
      no_hits_store [OF a' b' quiet_search [OF c'] d, of params0] p2
    by (simp add: api_request_frame state0_def empty_dict_def)
qed

subsection \<open>The inactivity parameter\<close>

lemma filter_channels_inactivity:
  "filter_channels (p\<lparr>inactivity_days := d\<rparr>) existing chs = filter_channels p existing chs"
  by (induction chs) (simp_all add: Let_def split: option.splits subscriber_field.splits)

lemma process_page_inactivity:
  "process_page env api_keys (p\<lparr>inactivity_days := d\<rparr>) kw added tok s =
   process_page env api_keys p kw added tok s"
  unfolding process_page_def filter_channels_inactivity ..

declare kw_loop.simps [simp del]

lemma kw_loop_inactivity:
  "kw_loop env api_keys (p\<lparr>inactivity_days := d\<rparr>) kw pages_processed added tok s =
   kw_loop env api_keys p kw pages_processed added tok s"
proof (induction env api_keys p kw pages_processed added tok s rule: kw_loop.induct)
  case (1 env api_keys p kw pages_processed added tok s)
  let ?q = "p\<lparr>inactivity_days := d\<rparr>"
  note l = kw_loop.simps [of env api_keys ?q kw pages_processed added tok s]
  note r = kw_loop.simps [of env api_keys p kw pages_processed added tok s]
  show ?case
  proof (cases "pages_processed < max_pages \<and> added < MAX_VALID_PER_KEYWORD")
    case False
    show ?thesis by (simp only: l r False if_False)
  next
    case True
    show ?thesis
    proof (cases "process_page env api_keys p kw added tok s")
      case (Pair res s1)
      show ?thesis
      proof (cases res)
        case (Next added' tok')
        from "1.IH" [OF True Pair [symmetric] Next]
        have "kw_loop env api_keys ?q kw (Suc pages_processed) added' tok' (sleep 200 s1) =
              kw_loop env api_keys p kw (Suc pages_processed) added' tok' (sleep 200 s1)" .
        with True Pair Next show ?thesis
          by (simp add: l r process_page_inactivity)
      next
        case (Raise e)
        with True Pair show ?thesis
          by (simp add: l r process_page_inactivity)
      next
        case Break
        with True Pair show ?thesis
          by (simp add: l r process_page_inactivity)
      qed
    qed
  qed
qed

lemma process_keyword_inactivity:
  "process_keyword env api_keys (p\<lparr>inactivity_days := d\<rparr>) kw s =
   process_keyword env api_keys p kw s"
  by (simp add: process_keyword_def kw_loop_inactivity)

lemma run_keywords_inactivity:
  "run_keywords env api_keys (p\<lparr>inactivity_days := d\<rparr>) kws total_added s =
   run_keywords env api_keys p kws total_added s"
proof (induction kws arbitrary: total_added s)
  case Nil
  show ?case by simp
next
  case (Cons kw kws)
  show ?case
    unfolding run_keywords.simps process_keyword_inactivity Cons.IH ..
qed

text \<open>
  C10. Two runs that differ only in \<^verbatim>\<open>inactivity_days\<close>, with the same collaborators, the
  same keys and the same starting worksheet and checkpoint file, end the same way and in the
  same state: the same rows in the worksheet, the same checkpoint file, the same log.
\<close>

theorem inactivity_days_unused:
  "run_scraper env api_keys (p\<lparr>inactivity_days := d\<rparr>) s = run_scraper env api_keys p s"
proof -
  have k: "keywords (p\<lparr>inactivity_days := d\<rparr>) = keywords p" by simp
  show ?thesis
    unfolding run_scraper_def run_keywords_inactivity k ..
qed

subsection \<open>The stages of a page\<close>

lemma channel_url_inj: "channel_url a = channel_url b \<Longrightarrow> a = b"
  by (simp add: channel_url_def)

lemma filter_channels_urls:
  "filter_channels p existing chs = Inr cands \<Longrightarrow>
   \<forall>c\<in>set cands. cand_url c = channel_url (cand_id c) \<and> cand_url c \<notin> existing"
proof (induction chs arbitrary: cands)
  case Nil
  then show ?case by simp
next
  case (Cons ch chs)
  then show ?case
    by (auto simp: Let_def split: option.splits if_splits subscriber_field.splits sum.splits)
qed

lemma id_to_candidate_Some:
  "id_to_candidate cands cid = Some c \<Longrightarrow> c \<in> set cands \<and> cand_id c = cid"
  unfolding id_to_candidate_def by (auto dest!: map_of_SomeD)

lemma dict_keys_distinct: "distinct (dict_keys cands)"
  by (simp add: dict_keys_def)

lemma run_workers_effect:
  "run_workers env api_keys cids s = (futs, s') \<Longrightarrow>
   map fst futs = cids \<and> sheet s' = sheet s \<and> existing_channels s' = existing_channels s
   \<and> checkpoint s' = checkpoint s \<and> disk s' = disk s"
proof (induction cids arbitrary: s futs s')
  case Nil
  then show ?case by simp
next
  case (Cons cid cids)
  obtain r s1 where a: "api_request api_keys (\<lambda>t yt. content_details env t yt cid) s = (r, s1)"
    by (cases "api_request api_keys (\<lambda>t yt. content_details env t yt cid) s")
  obtain rs s2 where w: "run_workers env api_keys cids s1 = (rs, s2)"
    by (cases "run_workers env api_keys cids s1")
  from Cons.prems a w have f: "futs = (cid, case r of Inl e \<Rightarrow> Some e | Inr u \<Rightarrow> None) # rs"
    and s': "s' = s2" by simp_all
  from Cons.IH [OF w] api_request_frame' [OF a] f s' show ?case by simp
qed

lemma distinct_map_insort_key:
  "distinct (map g (insort_key f x xs)) = (g x \<notin> g ` set xs \<and> distinct (map g xs))"
  by (induction xs) (auto simp: set_insort_key)

lemma distinct_map_sort_key:
  "distinct (map g (sort_key f xs)) = distinct (map g xs)"
  by (induction xs) (simp_all add: distinct_map_insort_key)

lemma url_of_make_row [simp]: "url_of (make_row c kw) = cand_url c"
  by (simp add: url_of_def make_row_def)

lemma keyword_of_make_row [simp]: "make_row c kw ! 3 = kw"
  by (simp add: make_row_def)

lemma collect_effect:
  assumes "collect env kw m futs rows added s = (res, s')"
    and "distinct (map fst futs)"
    and "\<forall>f\<in>set futs. \<forall>c. m (fst f) = Some c \<longrightarrow> cand_url c = channel_url (fst f)"
    and "\<forall>f\<in>set futs. channel_url (fst f) \<notin> existing_channels s"
  shows "sheet s' = sheet s \<and> checkpoint s' = checkpoint s \<and> disk s' = disk s
     \<and> existing_channels s \<subseteq> existing_channels s'
     \<and> (\<forall>rows' added'. res = Inr (rows', added') \<longrightarrow>
          (\<exists>new. rows' = rows @ new \<and> distinct (map url_of new)
             \<and> (\<forall>r\<in>set new. url_of r \<notin> existing_channels s \<and> r ! 3 = kw)
             \<and> url_of ` set new \<subseteq> existing_channels s'))"
  using assms
proof (induction futs arbitrary: rows added s)
  case Nil
  then show ?case by auto
next
  case (Cons f futs)
  obtain cid r where f: "f = (cid, r)" by (cases f)
  show ?case
  proof (cases "should_stop env (ticks s)")
    case True
    with Cons.prems(1) f show ?thesis by auto
  next
    case run: False
    show ?thesis
    proof (cases r)
      case (Some e)
      with Cons.prems(1) f run show ?thesis by auto
    next
      case None
      show ?thesis
      proof (cases "m cid")
        case nc: None
        with Cons.prems(1) f run None show ?thesis by auto
      next
        case (Some c)
        let ?row = "make_row c kw"
        let ?s2 = "log_callback (Added (cand_title c) (cand_subs c) kw)
                    ((tick s)\<lparr>existing_channels := insert (cand_url c) (existing_channels s)\<rparr>)"
        have url: "cand_url c = channel_url cid"
          using Cons.prems(3) f Some by auto
        have new: "cand_url c \<notin> existing_channels s"
          using Cons.prems(4) f url by auto
        show ?thesis
        proof (cases "added + 1 \<ge> MAX_VALID_PER_KEYWORD")
          case True
          with Cons.prems(1) f run None Some
          have "res = Inr (rows @ [?row], added + 1)" and "s' = ?s2"
            by (auto simp: Let_def)
          with new show ?thesis by auto
        next
          case False
          with Cons.prems(1) f run None Some
          have rec: "collect env kw m futs (rows @ [?row]) (added + 1) ?s2 = (res, s')"
            by (auto simp: Let_def)
          have d: "distinct (map fst futs)" and nin: "cid \<notin> fst ` set futs"
            using Cons.prems(2) f by auto
          have u: "\<forall>f\<in>set futs. \<forall>c. m (fst f) = Some c \<longrightarrow> cand_url c = channel_url (fst f)"
            using Cons.prems(3) by simp
          have e: "\<forall>f\<in>set futs. channel_url (fst f) \<notin> existing_channels ?s2"
          proof
            fix g assume g: "g \<in> set futs"
            then have "fst g \<noteq> cid" using nin by auto
            then have "channel_url (fst g) \<noteq> cand_url c"
              using url channel_url_inj by auto
            moreover have "channel_url (fst g) \<notin> existing_channels s"
              using Cons.prems(4) g by simp
            ultimately show "channel_url (fst g) \<notin> existing_channels ?s2" by simp
          qed
          from Cons.IH [OF rec d u e]
          have fr: "sheet s' = sheet ?s2" "checkpoint s' = checkpoint ?s2" "disk s' = disk ?s2"
            and sub: "existing_channels ?s2 \<subseteq> existing_channels s'"
            and rows: "\<forall>rows' added'. res = Inr (rows', added') \<longrightarrow>
              (\<exists>new. rows' = (rows @ [?row]) @ new \<and> distinct (map url_of new)
                 \<and> (\<forall>r\<in>set new. url_of r \<notin> existing_channels ?s2 \<and> r ! 3 = kw)
                 \<and> url_of ` set new \<subseteq> existing_channels s')"
            by auto
          have "\<forall>rows' added'. res = Inr (rows', added') \<longrightarrow>
              (\<exists>new. rows' = rows @ new \<and> distinct (map url_of new)
                 \<and> (\<forall>r\<in>set new. url_of r \<notin> existing_channels s \<and> r ! 3 = kw)
                 \<and> url_of ` set new \<subseteq> existing_channels s')"
          proof (intro allI impI)
            fix rows' added' assume "res = Inr (rows', added')"
            with rows obtain new where n: "rows' = (rows @ [?row]) @ new"
              "distinct (map url_of new)"
              "\<forall>r\<in>set new. url_of r \<notin> existing_channels ?s2 \<and> r ! 3 = kw"
              "url_of ` set new \<subseteq> existing_channels s'"
              by blast
            have "rows' = rows @ (?row # new)" using n(1) by simp
            moreover have "distinct (map url_of (?row # new))"
              using n(2,3) by auto
            moreover have "\<forall>r\<in>set (?row # new). url_of r \<notin> existing_channels s \<and> r ! 3 = kw"
              using n(3) new by auto
            moreover have "url_of ` set (?row # new) \<subseteq> existing_channels s'"
              using n(4) sub by auto
            ultimately show "\<exists>new. rows' = rows @ new \<and> distinct (map url_of new)
                 \<and> (\<forall>r\<in>set new. url_of r \<notin> existing_channels s \<and> r ! 3 = kw)
                 \<and> url_of ` set new \<subseteq> existing_channels s'"
              by blast
          qed
          with fr sub show ?thesis by auto
        qed
      qed
    qed
  qed
qed


lemma append_stage_effect:
  assumes "append_stage env api_keys kw cands added s = (res, s')"
    and "\<forall>c\<in>set cands. cand_url c = channel_url (cand_id c) \<and> cand_url c \<notin> existing_channels s"
  shows "sheet s' = sheet s \<and> checkpoint s' = checkpoint s \<and> disk s' = disk s
     \<and> existing_channels s \<subseteq> existing_channels s'
     \<and> (\<forall>rows added'. res = Inr (rows, added') \<longrightarrow>
          distinct (map url_of rows)
          \<and> (\<forall>r\<in>set rows. url_of r \<notin> existing_channels s \<and> r ! 3 = kw)
          \<and> url_of ` set rows \<subseteq> existing_channels s')"
proof (cases "cands = []")
  case True
  with assms(1) show ?thesis by (auto simp: append_stage_def)
next
  case False
  obtain futs s1 where w: "run_workers env api_keys (dict_keys cands) s = (futs, s1)"
    by (cases "run_workers env api_keys (dict_keys cands) s")
  let ?futs = "sort_key (\<lambda>f. finish_time env (ticks s) (fst f)) futs"
  from run_workers_effect [OF w]
  have ids: "map fst futs = dict_keys cands" and fr: "sheet s1 = sheet s"
    "existing_channels s1 = existing_channels s" "checkpoint s1 = checkpoint s" "disk s1 = disk s"
    by simp_all
  from assms(1) False w
  have c: "collect env kw (id_to_candidate cands) ?futs [] added s1 = (res, s')"
    by (simp add: append_stage_def)
  have d: "distinct (map fst ?futs)"
    by (simp add: distinct_map_sort_key ids dict_keys_distinct)
  have u: "\<forall>f\<in>set ?futs. \<forall>c. id_to_candidate cands (fst f) = Some c \<longrightarrow>
             cand_url c = channel_url (fst f)"
    using assms(2) by (auto dest!: id_to_candidate_Some)
  have im: "fst ` set futs = cand_id ` set cands"
    using ids by (metis dict_keys_def list.set_map set_remdups set_rev)
  have e: "\<forall>f\<in>set ?futs. channel_url (fst f) \<notin> existing_channels s1"
  proof
    fix f assume "f \<in> set ?futs"
    then have "fst f \<in> fst ` set futs" by simp
    with im obtain c where "c \<in> set cands" "fst f = cand_id c" by auto
    with assms(2) fr(2) show "channel_url (fst f) \<notin> existing_channels s1" by auto
  qed
  from collect_effect [OF c d u e] fr show ?thesis by auto
qed

lemma process_page_effect:
  assumes "process_page env api_keys p kw added tok s = (res, s')"
  shows "\<exists>rows. sheet s' = sheet s @ rows
       \<and> distinct (map url_of rows)
       \<and> (\<forall>r\<in>set rows. url_of r \<notin> existing_channels s \<and> r ! 3 = kw)
       \<and> existing_channels s \<union> url_of ` set rows \<subseteq> existing_channels s'
       \<and> ((checkpoint s' = checkpoint s \<and> disk s' = disk s)
          \<or> (\<exists>tok' added'. checkpoint s' = set_progress kw tok' added' (checkpoint s)
                \<and> disk s' = Stored (checkpoint s')))"
proof -
  let ?goal = "\<exists>rows. sheet s' = sheet s @ rows
       \<and> distinct (map url_of rows)
       \<and> (\<forall>r\<in>set rows. url_of r \<notin> existing_channels s \<and> r ! 3 = kw)
       \<and> existing_channels s \<union> url_of ` set rows \<subseteq> existing_channels s'
       \<and> ((checkpoint s' = checkpoint s \<and> disk s' = disk s)
          \<or> (\<exists>tok' added'. checkpoint s' = set_progress kw tok' added' (checkpoint s)
                \<and> disk s' = Stored (checkpoint s')))"
  have same: ?goal
    if "sheet s' = sheet s" "existing_channels s \<subseteq> existing_channels s'"
       "checkpoint s' = checkpoint s" "disk s' = disk s"
    using that by (intro exI [of _ "[]"]) auto
  show ?thesis
  proof (cases "should_stop env (ticks s)")
    case True
    with assms have "s' = log_callback StoppingKeyword (tick s)"
      by (simp add: process_page_def)
    then show ?thesis by (intro same) simp_all
  next
    case run: False
    obtain r1 s1 where a1:
      "api_request api_keys (\<lambda>t yt. search_list env t yt kw tok) (tick s) = (r1, s1)"
      by (cases "api_request api_keys (\<lambda>t yt. search_list env t yt kw tok) (tick s)")
    from api_request_frame' [OF a1]
    have f1: "sheet s1 = sheet s" "existing_channels s1 = existing_channels s"
      "checkpoint s1 = checkpoint s" "disk s1 = disk s" by simp_all
    show ?thesis
    proof (cases r1)
      case (Inl e)
      with assms run a1 have "s' = s1" by (simp add: process_page_def)
      with f1 show ?thesis by (intro same) simp_all
    next
      case (Inr sr)
      note sr = Inr
      show ?thesis
      proof (cases "channel_ids (items sr)")
        case (Inl e)
        with assms run a1 sr have "s' = s1" by (simp add: process_page_def)
        with f1 show ?thesis by (intro same) simp_all
      next
        case (Inr ids)
        note ids = Inr
        show ?thesis
        proof (cases "ids = []")
          case True
          with assms run a1 sr ids have "s' = log_callback (NoMoreResults kw) s1"
            by (simp add: process_page_def)
          with f1 show ?thesis by (intro same) simp_all
        next
          case ne: False
          obtain r2 s2 where a2:
            "api_request api_keys (\<lambda>t yt. channels_list env t yt ids) s1 = (r2, s2)"
            by (cases "api_request api_keys (\<lambda>t yt. channels_list env t yt ids) s1")
          from api_request_frame' [OF a2] f1
          have f2: "sheet s2 = sheet s" "existing_channels s2 = existing_channels s"
            "checkpoint s2 = checkpoint s" "disk s2 = disk s" by simp_all
          show ?thesis
          proof (cases r2)
            case (Inl e)
            with assms run a1 sr ids ne a2 have "s' = s2" by (simp add: process_page_def)
            with f2 show ?thesis by (intro same) simp_all
          next
            case (Inr details)
            note details = Inr
            show ?thesis
            proof (cases "filter_channels p (existing_channels s2) details")
              case (Inl e)
              with assms run a1 sr ids ne a2 details have "s' = s2"
                by (simp add: process_page_def)
              with f2 show ?thesis by (intro same) simp_all
            next
              case (Inr cands)
              note cands = Inr
              obtain r3 s3 where a3: "append_stage env api_keys kw cands added s2 = (r3, s3)"
                by (cases "append_stage env api_keys kw cands added s2")
              from append_stage_effect [OF a3 filter_channels_urls [OF cands]] f2
              have f3: "sheet s3 = sheet s" "checkpoint s3 = checkpoint s" "disk s3 = disk s"
                and sub: "existing_channels s \<subseteq> existing_channels s3"
                and rw: "\<forall>rows added'. r3 = Inr (rows, added') \<longrightarrow>
                    distinct (map url_of rows)
                    \<and> (\<forall>r\<in>set rows. url_of r \<notin> existing_channels s \<and> r ! 3 = kw)
                    \<and> url_of ` set rows \<subseteq> existing_channels s3"
                by simp_all
              show ?thesis
              proof (cases r3)
                case (Inl e)
                with assms run a1 sr ids ne a2 details cands a3 have "s' = s3"
                  by (simp add: process_page_def)
                with f3 sub show ?thesis by (intro same) simp_all
              next
                case (Inr ra)
                obtain rows added' where ra: "ra = (rows, added')" by (cases ra)
                let ?s4 = "if rows \<noteq> [] then append_rows rows s3 else s3"
                let ?c = "set_progress kw (nextPageToken sr) added' (checkpoint ?s4)"
                let ?s5 = "save_checkpoint ?c (?s4\<lparr>checkpoint := ?c\<rparr>)"
                from assms run a1 sr ids ne a2 details cands a3 Inr ra
                have "s' = ?s5 \<or> s' = log_callback (ReachedEnd kw) ?s5"
                  by (simp add: process_page_def Let_def split: if_splits)
                then have g: "sheet s' = sheet s @ rows"
                  "existing_channels s' = existing_channels s3"
                  "checkpoint s' = set_progress kw (nextPageToken sr) added' (checkpoint s)"
                  "disk s' = Stored (checkpoint s')"
                  using f3 by (auto simp: append_rows_def save_checkpoint_def split: if_splits)
                from rw Inr ra have
                  r: "distinct (map url_of rows)"
                    "\<forall>r\<in>set rows. url_of r \<notin> existing_channels s \<and> r ! 3 = kw"
                    "url_of ` set rows \<subseteq> existing_channels s3"
                  by simp_all
                show ?thesis
                  using g r sub by (intro exI [of _ rows]) auto
              qed
            qed
          qed
        qed
      qed
    qed
  qed
qed


subsection \<open>The loops\<close>

lemma kw_loop_rel:
  assumes refl: "\<And>s. R s s"
    and trans: "\<And>a b c. R a b \<Longrightarrow> R b c \<Longrightarrow> R a c"
    and page: "\<And>added tok s res s'.
                 process_page env api_keys p kw added tok s = (res, s') \<Longrightarrow> R s s'"
    and pause: "\<And>s. R s (sleep 200 s)"
  shows "R s (snd (kw_loop env api_keys p kw n added tok s))"
proof (induction "max_pages - n" arbitrary: n added tok s)
  case 0
  then have "\<not> n < max_pages" by simp
  then show ?case by (simp add: kw_loop.simps [of env api_keys p kw n added tok s] refl)
next
  case (Suc k)
  note unf = kw_loop.simps [of env api_keys p kw n added tok s]
  show ?case
  proof (cases "n < max_pages \<and> added < MAX_VALID_PER_KEYWORD")
    case False
    show ?thesis by (simp only: unf False if_False snd_conv refl)
  next
    case True
    obtain res s1 where pp: "process_page env api_keys p kw added tok s = (res, s1)"
      by (cases "process_page env api_keys p kw added tok s")
    have r1: "R s s1" by (rule page [OF pp])
    show ?thesis
    proof (cases res)
      case (Raise e)
      with True pp r1 show ?thesis by (simp add: unf)
    next
      case Break
      with True pp r1 show ?thesis by (simp add: unf)
    next
      case (Next added' tok')
      have "k = max_pages - Suc n" using Suc.hyps(2) by simp
      from Suc.hyps(1) [OF this]
      have "R (sleep 200 s1) (snd (kw_loop env api_keys p kw (Suc n) added' tok' (sleep 200 s1)))" .
      with r1 pause [of s1]
      have "R s (snd (kw_loop env api_keys p kw (Suc n) added' tok' (sleep 200 s1)))"
        by (blast intro: trans)
      with True pp Next show ?thesis by (simp add: unf)
    qed
  qed
qed

lemma process_keyword_state:
  "snd (process_keyword env api_keys p kw s) =
   snd (kw_loop env api_keys p kw 0 (get_done (checkpoint s) kw) (get_position (checkpoint s) kw) s)"
  by (simp add: process_keyword_def split: prod.splits option.splits)

subsection \<open>No URL twice\<close>

lemma fresh_rows_same:
  "sheet s' = sheet s \<Longrightarrow> existing_channels s \<subseteq> existing_channels s' \<Longrightarrow> fresh_rows s s'"
  unfolding fresh_rows_def by (intro exI [of _ "[]"]) auto

lemma fresh_rows_trans:
  assumes "fresh_rows a b" and "fresh_rows b c"
  shows "fresh_rows a c"
proof -
  from assms(1) obtain n1 where 1: "sheet b = sheet a @ n1" "distinct (map url_of n1)"
    "\<forall>r\<in>set n1. url_of r \<notin> existing_channels a"
    "existing_channels a \<union> url_of ` set n1 \<subseteq> existing_channels b"
    unfolding fresh_rows_def by blast
  from assms(2) obtain n2 where 2: "sheet c = sheet b @ n2" "distinct (map url_of n2)"
    "\<forall>r\<in>set n2. url_of r \<notin> existing_channels b"
    "existing_channels b \<union> url_of ` set n2 \<subseteq> existing_channels c"
    unfolding fresh_rows_def by blast
  have "sheet c = sheet a @ (n1 @ n2)" using 1(1) 2(1) by simp
  moreover have "distinct (map url_of (n1 @ n2))" using 1(2,4) 2(2,3) by auto
  moreover have "\<forall>r\<in>set (n1 @ n2). url_of r \<notin> existing_channels a" using 1(3,4) 2(3) by auto
  moreover have "existing_channels a \<union> url_of ` set (n1 @ n2) \<subseteq> existing_channels c"
    using 1(4) 2(4) by auto
  ultimately show ?thesis unfolding fresh_rows_def by blast
qed

lemma process_page_fresh:
  "process_page env api_keys p kw added tok s = (res, s') \<Longrightarrow> fresh_rows s s'"
  using process_page_effect [of env api_keys p kw added tok s res s']
  unfolding fresh_rows_def by blast

lemma process_keyword_fresh:
  "fresh_rows s (snd (process_keyword env api_keys p kw s))"
  unfolding process_keyword_state
  by (rule kw_loop_rel)
     (auto intro: fresh_rows_same fresh_rows_trans process_page_fresh)

lemma run_keywords_fresh:
  "fresh_rows s (snd (run_keywords env api_keys p kws total_added s))"
proof (induction kws arbitrary: total_added s)
  case Nil
  show ?case by (simp add: fresh_rows_same)
next
  case (Cons kw kws)
  show ?case
  proof (cases "should_stop env (ticks s)")
    case True
    then show ?thesis by (simp add: fresh_rows_same)
  next
    case run: False
    show ?thesis
    proof (cases "get_done (checkpoint s) kw \<ge> MAX_VALID_PER_KEYWORD")
      case True
      have "fresh_rows s (log_callback (Skipping kw) (tick s))"
        by (simp add: fresh_rows_same)
      from fresh_rows_trans [OF this
          Cons.IH [where s = "log_callback (Skipping kw) (tick s)" and total_added = total_added]]
        run True
      show ?thesis by simp
    next
      case False
      let ?s0 = "log_callback (Processing kw) (tick s)"
      obtain r s1 where pk: "process_keyword env api_keys p kw ?s0 = (r, s1)"
        by (cases "process_keyword env api_keys p kw ?s0")
      have "fresh_rows s ?s0" by (simp add: fresh_rows_same)
      moreover have "fresh_rows ?s0 s1"
        using process_keyword_fresh [of ?s0 env api_keys p kw] pk by simp
      ultimately have f1: "fresh_rows s s1" by (rule fresh_rows_trans)
      show ?thesis
      proof (cases r)
        case (Inl e)
        with run False pk f1 show ?thesis by simp
      next
        case (Inr count)
        let ?s2 = "log_callback (AddedForKeyword count kw) s1"
        have f2: "fresh_rows s ?s2"
          by (rule fresh_rows_trans [OF f1]) (simp add: fresh_rows_same)
        show ?thesis
        proof (cases "add_count total_added count")
          case (Inl e)
          with run False pk Inr f2 show ?thesis by simp
        next
          case tot: (Inr total')
          let ?c = "(checkpoint ?s2)\<lparr>processed_channels := Some (existing_channels ?s2)\<rparr>"
          let ?s3 = "save_checkpoint ?c (?s2\<lparr>checkpoint := ?c\<rparr>)"
          have "fresh_rows ?s2 ?s3" by (simp add: fresh_rows_same save_checkpoint_def)
          with f2 have f3: "fresh_rows s ?s3" by (rule fresh_rows_trans)
          have "fresh_rows s (snd (run_keywords env api_keys p kws total' ?s3))"
            by (rule fresh_rows_trans [OF f3 Cons.IH [where s = ?s3 and total_added = total']])
          with run False pk Inr tot show ?thesis by (simp add: Let_def)
        qed
      qed
    qed
  qed
qed


lemma setup_worksheet_sheet:
  "setup_worksheet env s = (r, s2) \<Longrightarrow> sheet s2 = sheet s \<or> sheet s2 = [header]"
  by (auto simp: setup_worksheet_def Let_def split: option.splits if_splits)

lemma load_checkpoint_frame:
  "load_checkpoint s = (r, s') \<Longrightarrow>
   sheet s' = sheet s \<and> existing_channels s' = existing_channels s"
  by (auto simp: load_checkpoint_def split: checkpoint_file.splits if_splits)

lemma run_scraper_rows:
  "\<exists>base new. sheet (snd (run_scraper env api_keys p s)) = base @ new
     \<and> (base = sheet s \<or> base = [header])
     \<and> distinct (map url_of new)
     \<and> (\<forall>r\<in>set new. url_of r \<notin> seed_channels base)
     \<and> url_of ` set new \<subseteq> existing_channels (snd (run_scraper env api_keys p s))"
proof -
  let ?goal = "\<lambda>s'. \<exists>base new. sheet s' = base @ new
     \<and> (base = sheet s \<or> base = [header])
     \<and> distinct (map url_of new)
     \<and> (\<forall>r\<in>set new. url_of r \<notin> seed_channels base)
     \<and> url_of ` set new \<subseteq> existing_channels s'"
  have none: "?goal s'" if "sheet s' = sheet s \<or> sheet s' = [header]" for s'
    using that by (intro exI [of _ "sheet s'"] exI [of _ "[]"]) auto
  let ?s0 = "log_callback ScraperStarting s"
  show ?thesis
  proof (cases "manager_init api_keys ?s0")
    case (Inl e)
    then have "snd (run_scraper env api_keys p s) = ?s0"
      by (simp add: run_scraper_def)
    then show ?thesis using none [of ?s0] by simp
  next
    case (Inr s1)
    then have s1: "sheet s1 = sheet s"
      by (auto simp: manager_init_def split: if_splits)
    obtain r2 s2 where su: "setup_worksheet env s1 = (r2, s2)"
      by (cases "setup_worksheet env s1")
    from setup_worksheet_sheet [OF su] s1
    have base: "sheet s2 = sheet s \<or> sheet s2 = [header]" by simp
    show ?thesis
    proof (cases r2)
      case (Inl e)
      with Inr su have "snd (run_scraper env api_keys p s) = s2"
        by (simp add: run_scraper_def)
      then show ?thesis using none [OF base] by simp
    next
      case u: (Inr u)
      let ?s3 = "(log_callback LoadingExisting s2)\<lparr>existing_channels := seed_channels (sheet s2)\<rparr>"
      let ?s4 = "log_callback (FoundExisting (card (existing_channels ?s3))) ?s3"
      obtain r5 s5 where lc: "load_checkpoint ?s4 = (r5, s5)"
        by (cases "load_checkpoint ?s4")
      from load_checkpoint_frame [OF lc]
      have s5: "sheet s5 = sheet s2" "existing_channels s5 = seed_channels (sheet s2)"
        by simp_all
      show ?thesis
      proof (cases r5)
        case (Inl e)
        with Inr su u lc have "snd (run_scraper env api_keys p s) = s5"
          by (simp add: run_scraper_def Let_def)
        then show ?thesis using none [of s5] base s5 by simp
      next
        case c: (Inr c)
        let ?s5 = "s5\<lparr>checkpoint := c\<rparr>"
        obtain r6 s6 where rk: "run_keywords env api_keys p (keywords p) 0 ?s5 = (r6, s6)"
          by (cases "run_keywords env api_keys p (keywords p) 0 ?s5")
        from run_keywords_fresh [of ?s5 env api_keys p "keywords p" 0] rk
        have "fresh_rows ?s5 s6" by simp
        then obtain new where n: "sheet s6 = sheet s2 @ new" "distinct (map url_of new)"
          "\<forall>r\<in>set new. url_of r \<notin> seed_channels (sheet s2)"
          "url_of ` set new \<subseteq> existing_channels s6"
          unfolding fresh_rows_def using s5 by auto
        have g: "?goal s'" if "sheet s' = sheet s6" "existing_channels s' = existing_channels s6"
          for s'
          using that n base by (intro exI [of _ "sheet s2"] exI [of _ new]) auto
        from Inr su u lc c rk
        have "snd (run_scraper env api_keys p s) = s6
            \<or> snd (run_scraper env api_keys p s) = log_callback (Done (projr r6)) s6"
          by (cases r6) (simp_all add: run_scraper_def Let_def)
        then show ?thesis using g by auto
      qed
    qed
  qed
qed

subsection \<open>A keyword that is done\<close>

lemma same_progress_refl: "same_progress K c c"
  by (simp add: same_progress_def)

lemma same_progress_trans:
  "same_progress K a b \<Longrightarrow> same_progress K b c \<Longrightarrow> same_progress K a c"
  by (simp add: same_progress_def)

lemma same_progress_other:
  "K \<noteq> kw \<Longrightarrow> same_progress K c (set_progress kw tok added c)"
  by (simp add: same_progress_def set_progress_def position_entry_def get_done_def
      split: option.splits)

lemma same_progress_processed:
  "same_progress K c (c\<lparr>processed_channels := x\<rparr>)"
  by (simp add: same_progress_def position_entry_def get_done_def)

lemma untouched_same:
  "sheet s' = sheet s \<Longrightarrow> checkpoint s' = checkpoint s \<Longrightarrow> disk s' = disk s \<Longrightarrow>
   untouched K s s'"
  unfolding untouched_def by (auto simp: same_progress_refl)

lemma untouched_trans:
  assumes "untouched K a b" and "untouched K b c"
  shows "untouched K a c"
proof -
  from assms(1) obtain r1 where 1: "same_progress K (checkpoint a) (checkpoint b)"
    "disk b = disk a \<or> (\<exists>x. disk b = Stored x \<and> same_progress K (checkpoint a) x)"
    "sheet b = sheet a @ r1" "\<forall>r\<in>set r1. r ! 3 \<noteq> K"
    unfolding untouched_def by blast
  from assms(2) obtain r2 where 2: "same_progress K (checkpoint b) (checkpoint c)"
    "disk c = disk b \<or> (\<exists>x. disk c = Stored x \<and> same_progress K (checkpoint b) x)"
    "sheet c = sheet b @ r2" "\<forall>r\<in>set r2. r ! 3 \<noteq> K"
    unfolding untouched_def by blast
  have "same_progress K (checkpoint a) (checkpoint c)"
    using 1(1) 2(1) by (rule same_progress_trans)
  moreover have "disk c = disk a \<or> (\<exists>x. disk c = Stored x \<and> same_progress K (checkpoint a) x)"
    using 1(1,2) 2(2) by (auto intro: same_progress_trans)
  moreover have "sheet c = sheet a @ (r1 @ r2)" using 1(3) 2(3) by simp
  moreover have "\<forall>r\<in>set (r1 @ r2). r ! 3 \<noteq> K" using 1(4) 2(4) by auto
  ultimately show ?thesis unfolding untouched_def by blast
qed

lemma untouched_done:
  "untouched K s s' \<Longrightarrow> get_done (checkpoint s') K = get_done (checkpoint s) K"
  by (simp add: untouched_def same_progress_def)

lemma process_page_untouched:
  assumes "K \<noteq> kw" and "process_page env api_keys p kw added tok s = (res, s')"
  shows "untouched K s s'"
proof -
  from process_page_effect [OF assms(2)] obtain rows where
    r: "sheet s' = sheet s @ rows" "\<forall>r\<in>set rows. r ! 3 = kw" and
    c: "(checkpoint s' = checkpoint s \<and> disk s' = disk s)
          \<or> (\<exists>tok' added'. checkpoint s' = set_progress kw tok' added' (checkpoint s)
                \<and> disk s' = Stored (checkpoint s'))"
    by blast
  from c have "same_progress K (checkpoint s) (checkpoint s')
     \<and> (disk s' = disk s \<or> (\<exists>x. disk s' = Stored x \<and> same_progress K (checkpoint s) x))"
    using same_progress_other [OF assms(1)] by (auto simp: same_progress_refl)
  moreover have "\<forall>r\<in>set rows. r ! 3 \<noteq> K" using r(2) assms(1) by auto
  ultimately show ?thesis unfolding untouched_def using r(1) by blast
qed

lemma process_keyword_untouched:
  assumes "K \<noteq> kw"
  shows "untouched K s (snd (process_keyword env api_keys p kw s))"
  unfolding process_keyword_state
  by (rule kw_loop_rel)
     (auto intro: untouched_same untouched_trans process_page_untouched [OF assms])

lemma process_keyword_done:
  "MAX_VALID_PER_KEYWORD \<le> get_done (checkpoint s) K \<Longrightarrow>
   process_keyword env api_keys p K s = (Inr None, s)"
  by (simp add: process_keyword_def
      kw_loop.simps [of env api_keys p K 0 "get_done (checkpoint s) K"])

lemma run_keywords_untouched:
  "MAX_VALID_PER_KEYWORD \<le> get_done (checkpoint s) K \<Longrightarrow>
   untouched K s (snd (run_keywords env api_keys p kws total_added s))"
proof (induction kws arbitrary: total_added s)
  case Nil
  show ?case by (simp add: untouched_same)
next
  case (Cons kw kws)
  note fin = Cons.prems
  show ?case
  proof (cases "should_stop env (ticks s)")
    case True
    then show ?thesis by (simp add: untouched_same)
  next
    case run: False
    show ?thesis
    proof (cases "get_done (checkpoint s) kw \<ge> MAX_VALID_PER_KEYWORD")
      case True
      let ?s1 = "log_callback (Skipping kw) (tick s)"
      have u: "untouched K s ?s1" by (simp add: untouched_same)
      have "MAX_VALID_PER_KEYWORD \<le> get_done (checkpoint ?s1) K" using fin by simp
      from untouched_trans [OF u Cons.IH [OF this, where total_added = total_added]] run True
      show ?thesis by simp
    next
      case False
      with fin have ne: "K \<noteq> kw" by auto
      let ?s0 = "log_callback (Processing kw) (tick s)"
      obtain r s1 where pk: "process_keyword env api_keys p kw ?s0 = (r, s1)"
        by (cases "process_keyword env api_keys p kw ?s0")
      have "untouched K s ?s0" by (simp add: untouched_same)
      moreover have "untouched K ?s0 s1"
        using process_keyword_untouched [OF ne, of ?s0 env api_keys p] pk by simp
      ultimately have u1: "untouched K s s1" by (rule untouched_trans)
      show ?thesis
      proof (cases r)
        case (Inl e)
        with run False pk u1 show ?thesis by simp
      next
        case (Inr count)
        let ?s2 = "log_callback (AddedForKeyword count kw) s1"
        have u2: "untouched K s ?s2"
          by (rule untouched_trans [OF u1]) (simp add: untouched_same)
        show ?thesis
        proof (cases "add_count total_added count")
          case (Inl e)
          with run False pk Inr u2 show ?thesis by simp
        next
          case tot: (Inr total')
          let ?c = "(checkpoint ?s2)\<lparr>processed_channels := Some (existing_channels ?s2)\<rparr>"
          let ?s3 = "save_checkpoint ?c (?s2\<lparr>checkpoint := ?c\<rparr>)"
          have "untouched K ?s2 ?s3"
            unfolding untouched_def
            by (auto simp: save_checkpoint_def same_progress_processed)
          with u2 have u3: "untouched K s ?s3" by (rule untouched_trans)
          have "MAX_VALID_PER_KEYWORD \<le> get_done (checkpoint ?s3) K"
            using fin untouched_done [OF u3] by simp
          from untouched_trans [OF u3 Cons.IH [OF this, where total_added = total']]
            run False pk Inr tot
          show ?thesis by (simp add: Let_def)
        qed
      qed
    qed
  qed
qed


text \<open>
  C7. When \<^verbatim>\<open>keywords_done[K]\<close> is at or above the cap, \<^verbatim>\<open>process_keyword\<close> for \<open>K\<close> returns
  at once and changes nothing, and a scan over any list of keywords leaves \<open>K\<close> untouched: it
  appends no row for \<open>K\<close>, and the cursor \<^verbatim>\<open>positions[K]\<close> and the count of \<open>K\<close> are the same
  afterwards, in the checkpoint dictionary and in the checkpoint file.
\<close>

theorem resume_idempotence:
  assumes "MAX_VALID_PER_KEYWORD \<le> get_done (checkpoint s) K"
  shows "process_keyword env api_keys p K s = (Inr None, s)
     \<and> untouched K s (snd (run_keywords env api_keys p kws total_added s))"
  using process_keyword_done [OF assms] run_keywords_untouched [OF assms] by simp

text \<open>
  The keyword \<open>yoga\<close> at the cap, with a search that would return hits: the scan skips it,
  and its cursor is still \<open>P2\<close>.
\<close>

theorem resume_idempotence_witness:
  "MAX_VALID_PER_KEYWORD \<le> get_done (checkpoint finished_state) ''yoga''
   \<and> process_keyword two_page_env [''k1''] params0 ''yoga'' finished_state
       = (Inr None, finished_state)
   \<and> untouched ''yoga'' finished_state
        (snd (run_keywords two_page_env [''k1''] params0 [''yoga''] 0 finished_state))
   \<and> get_position (checkpoint
        (snd (run_keywords two_page_env [''k1''] params0 [''yoga''] 0 finished_state))) ''yoga''
       = Some ''P2''
   \<and> sheet (snd (run_keywords two_page_env [''k1''] params0 [''yoga''] 0 finished_state)) = []"
proof -
  have a: "MAX_VALID_PER_KEYWORD \<le> get_done (checkpoint finished_state) ''yoga''"
    by (simp add: finished_state_def finished_checkpoint_def get_done_def
        MAX_VALID_PER_KEYWORD_def)
  have b: "get_position (checkpoint
        (snd (run_keywords two_page_env [''k1''] params0 [''yoga''] 0 finished_state))) ''yoga''
       = Some ''P2''"
    by code_simp
  have c: "sheet (snd (run_keywords two_page_env [''k1''] params0 [''yoga''] 0 finished_state)) = []"
    by code_simp
  from resume_idempotence [OF a, of two_page_env "[''k1'']" params0 "[''yoga'']" 0] a b c
  show ?thesis by blast
qed

text \<open>
  C6. Whatever the collaborators answer, the rows that \<^verbatim>\<open>process_keyword\<close>, the loop over the
  keywords and \<^verbatim>\<open>run_scraper\<close> append carry pairwise different URLs, none of which was in the
  dedup set before, and every one of them is in the dedup set afterwards. For \<^verbatim>\<open>run_scraper\<close>
  the dedup set before is the one seeded from the rows of the worksheet. The filter rejects
  every channel whose URL is in the dedup set.
\<close>

theorem no_url_appended_twice:
  "fresh_rows s (snd (process_keyword env api_keys p kw s))
   \<and> fresh_rows s (snd (run_keywords env api_keys p kws total_added s))
   \<and> (\<exists>base new. sheet (snd (run_scraper env api_keys p s)) = base @ new
         \<and> (base = sheet s \<or> base = [header])
         \<and> distinct (map url_of new)
         \<and> (\<forall>r\<in>set new. url_of r \<notin> seed_channels base)
         \<and> url_of ` set new \<subseteq> existing_channels (snd (run_scraper env api_keys p s)))
   \<and> (\<forall>cands. filter_channels p (existing_channels s) chs = Inr cands \<longrightarrow>
         (\<forall>c\<in>set cands. cand_url c \<notin> existing_channels s))"
  using process_keyword_fresh [of s env api_keys p kw]
    run_keywords_fresh [of s env api_keys p kws total_added]
    run_scraper_rows [of env api_keys p s]
    filter_channels_urls [of p "existing_channels s" chs]
  by blast

text \<open>
  The same channel is the only hit on both pages of the search: it is appended once.
\<close>

theorem no_url_appended_twice_witness:
  "fresh_rows state0 (snd (process_keyword two_page_env [''k1''] params0 ''yoga'' state0))
   \<and> sheet (snd (process_keyword two_page_env [''k1''] params0 ''yoga'' state0)) =
        [[''Yoga'', ''bob@x.org'', ''https://www.youtube.com/channel/UC1'', ''yoga'']]
   \<and> sheet (snd (run_scraper two_page_env [''k1''] params0 state0)) =
        [header, [''Yoga'', ''bob@x.org'', ''https://www.youtube.com/channel/UC1'', ''yoga'']]"
proof -
  have a: "sheet (snd (process_keyword two_page_env [''k1''] params0 ''yoga'' state0)) =
        [[''Yoga'', ''bob@x.org'', ''https://www.youtube.com/channel/UC1'', ''yoga'']]"
    by code_simp
  have b: "sheet (snd (run_scraper two_page_env [''k1''] params0 state0)) =
        [header, [''Yoga'', ''bob@x.org'', ''https://www.youtube.com/channel/UC1'', ''yoga'']]"
    by code_simp
  have f: "fresh_rows state0 (snd (process_keyword two_page_env [''k1''] params0 ''yoga'' state0))"
    using no_url_appended_twice
      [where s = state0 and env = two_page_env and api_keys = "[''k1'']" and p = params0
         and kw = "''yoga''"]
    by (rule conjunct1)
  show ?thesis by (intro conjI f a b)
qed

end
